theory Spec2Isabelle
  imports Complex_Main
begin


section \<open>Parameters and payoffs\<close>

text \<open>
  The module-level constants shared by \<^verbatim>\<open>OriginalSimulation.py\<close> and
  \<^verbatim>\<open>GenerationalResult.py\<close>. Scores are Python ints; probabilities are compared
  with the result of \<^verbatim>\<open>random.random()\<close>, a multiple of \<open>2^-53\<close>, for which the
  comparison with the double \<^verbatim>\<open>0.1\<close>, \<^verbatim>\<open>0.05\<close> or \<^verbatim>\<open>0.01\<close> is the comparison
  with the exact fraction.
\<close>

definition MAX_MOVES :: nat where "MAX_MOVES = 10"
definition P_INJURY :: real where "P_INJURY = 1 / 10"
definition TIME_BONUS_START :: int where "TIME_BONUS_START = 20"
definition TIME_BONUS_DECREMENT :: int where "TIME_BONUS_DECREMENT = 2"
definition MUTATION_RATE :: real where "MUTATION_RATE = 1 / 100"
definition PROBE_PROB :: real where "PROBE_PROB = 1 / 20"
definition WIN_PAYOFF :: int where "WIN_PAYOFF = 60"
definition SERIOUS_INJURY :: int where "SERIOUS_INJURY = - 100"
definition SCRATCH :: int where "SCRATCH = - 2"

section \<open>Moves, errors and the random source\<close>

text \<open>
  A move is whatever string \<^verbatim>\<open>choose_move\<close> returns; the legal ones are
  \<^verbatim>\<open>'C'\<close>, \<^verbatim>\<open>'D'\<close> and \<^verbatim>\<open>'R'\<close>.
\<close>

type_synonym move = string

datatype error = NotImplementedError | IndexError | ValueError

text \<open>
  The module \<^verbatim>\<open>random\<close> is one global generator. Its outputs are an explicit stream
  \<open>rs\<close> of raw values and a position that every draw advances; \<^verbatim>\<open>random.random()\<close>
  turns the next raw value into a 53-bit fraction in \<open>[0, 1)\<close>.
\<close>

type_synonym rng = "nat \<Rightarrow> nat"

definition random_random :: "rng \<Rightarrow> nat \<Rightarrow> real \<times> nat" where
  "random_random rs k = (real (rs k mod 2 ^ 53) / 2 ^ 53, Suc k)"

section \<open>The contest resolver\<close>

text \<open>
  A strategy class is its two methods over the instance's private state \<open>'s\<close>;
  \<^verbatim>\<open>choose_move\<close> may raise, may draw from the random source, and returns the move
  with the updated instance.
\<close>

record 's strategy =
  reset :: "'s \<Rightarrow> 's"
  choose_move :: "'s \<Rightarrow> move list \<Rightarrow> move list \<Rightarrow> rng \<Rightarrow> nat \<Rightarrow> error + (move \<times> 's \<times> nat)"

text \<open>The local variables of \<^verbatim>\<open>play_contest\<close>, with the position of the random source.\<close>

record ('a, 'b) contest =
  A_state :: 'a
  B_state :: 'b
  A_history :: "move list"
  B_history :: "move list"
  A_score :: int
  B_score :: int
  draws :: nat

datatype ('a, 'b) step = Return "int \<times> int" nat | Continue "('a, 'b) contest"

definition time_bonus :: "nat \<Rightarrow> int" where
  "time_bonus moves = TIME_BONUS_START - TIME_BONUS_DECREMENT * int moves"

text \<open>\<^verbatim>\<open>if B_move == 'D': ...\<close>, the last statement of the loop body.\<close>

definition dangerous_B :: "move \<Rightarrow> nat \<Rightarrow> rng \<Rightarrow> ('a, 'b) contest \<Rightarrow> ('a, 'b) step" where
  "dangerous_B B_move moves rs st =
     (if B_move = ''D'' then
        (case random_random rs (draws st) of (u, k) \<Rightarrow>
           if u < P_INJURY
           then Return (A_score st + SERIOUS_INJURY,
                        B_score st + WIN_PAYOFF + max (time_bonus moves) 0) k
           else Continue (st\<lparr>A_score := A_score st + SCRATCH, draws := k\<rparr>))
      else Continue st)"

text \<open>\<^verbatim>\<open>if A_move == 'D': ...\<close>, followed by B's dangerous act.\<close>

definition dangerous_A :: "move \<Rightarrow> move \<Rightarrow> nat \<Rightarrow> rng \<Rightarrow> ('a, 'b) contest \<Rightarrow> ('a, 'b) step" where
  "dangerous_A A_move B_move moves rs st =
     (if A_move = ''D'' then
        (case random_random rs (draws st) of (u, k) \<Rightarrow>
           if u < P_INJURY
           then Return (A_score st + WIN_PAYOFF + max (time_bonus moves) 0,
                        B_score st + SERIOUS_INJURY) k
           else dangerous_B B_move moves rs (st\<lparr>B_score := B_score st + SCRATCH, draws := k\<rparr>))
      else dangerous_B B_move moves rs st)"

text \<open>The retreat checks and the dangerous acts of one round, once both moves are known.\<close>

definition resolve :: "move \<Rightarrow> move \<Rightarrow> nat \<Rightarrow> rng \<Rightarrow> ('a, 'b) contest \<Rightarrow> ('a, 'b) step" where
  "resolve A_move B_move moves rs st =
     (if A_move = ''R'' \<and> B_move = ''R'' then Return (A_score st, B_score st) (draws st)
      else if A_move = ''R''
        then Return (A_score st, B_score st + WIN_PAYOFF + max (time_bonus moves) 0) (draws st)
      else if B_move = ''R''
        then Return (A_score st + WIN_PAYOFF + max (time_bonus moves) 0, B_score st) (draws st)
      else dangerous_A A_move B_move moves rs st)"

text \<open>
  The body of \<^verbatim>\<open>for moves in range(MAX_MOVES)\<close>: both sides are asked for their move on
  the histories so far (A first), both moves are appended, and the round is resolved.
\<close>

definition round_body ::
  "'a strategy \<Rightarrow> 'b strategy \<Rightarrow> rng \<Rightarrow> nat \<Rightarrow> ('a, 'b) contest \<Rightarrow> error + ('a, 'b) step" where
  "round_body SA SB rs moves st =
     (case choose_move SA (A_state st) (A_history st) (B_history st) rs (draws st) of
        Inl e \<Rightarrow> Inl e
      | Inr (A_move, sa, k1) \<Rightarrow>
          (case choose_move SB (B_state st) (B_history st) (A_history st) rs k1 of
             Inl e \<Rightarrow> Inl e
           | Inr (B_move, sb, k2) \<Rightarrow>
               Inr (resolve A_move B_move moves rs
                      (st\<lparr>A_state := sa, B_state := sb,
                          A_history := A_history st @ [A_move],
                          B_history := B_history st @ [B_move],
                          draws := k2\<rparr>))))"

text \<open>The loop over the round indices; falling out of it is the draw at the round cap.\<close>

fun contest_rounds ::
  "'a strategy \<Rightarrow> 'b strategy \<Rightarrow> rng \<Rightarrow> nat list \<Rightarrow> ('a, 'b) contest \<Rightarrow> error + ((int \<times> int) \<times> nat)" where
  "contest_rounds SA SB rs [] st = Inr ((A_score st, B_score st), draws st)"
| "contest_rounds SA SB rs (moves # ms) st =
     (case round_body SA SB rs moves st of
        Inl e \<Rightarrow> Inl e
      | Inr (Return scores k) \<Rightarrow> Inr (scores, k)
      | Inr (Continue st') \<Rightarrow> contest_rounds SA SB rs ms st')"

definition contest_start :: "'a strategy \<Rightarrow> 'a \<Rightarrow> 'b strategy \<Rightarrow> 'b \<Rightarrow> nat \<Rightarrow> ('a, 'b) contest" where
  "contest_start SA sa SB sb k =
     \<lparr>A_state = reset SA sa, B_state = reset SB sb, A_history = [], B_history = [],
      A_score = 0, B_score = 0, draws = k\<rparr>"

text \<open>
  \<^verbatim>\<open>play_contest(strategyA, strategyB)\<close> on two distinct instances, with the random
  source at position \<open>k\<close>: the pair of scores and the position after the contest.
\<close>

definition play_contest ::
  "'a strategy \<Rightarrow> 'a \<Rightarrow> 'b strategy \<Rightarrow> 'b \<Rightarrow> rng \<Rightarrow> nat \<Rightarrow> error + ((int \<times> int) \<times> nat)" where
  "play_contest SA sa SB sb rs k =
     contest_rounds SA SB rs [0..<MAX_MOVES] (contest_start SA sa SB sb k)"

text \<open>
  The locals of \<^verbatim>\<open>play_contest\<close> at the head of round \<open>r\<close>, when the loop gets there:
  \<open>None\<close> when the contest has returned or raised in an earlier round.
\<close>

primrec entering ::
  "'a strategy \<Rightarrow> 'a \<Rightarrow> 'b strategy \<Rightarrow> 'b \<Rightarrow> rng \<Rightarrow> nat \<Rightarrow> nat \<Rightarrow> ('a, 'b) contest option" where
  "entering SA sa SB sb rs k 0 = Some (contest_start SA sa SB sb k)"
| "entering SA sa SB sb rs k (Suc r) =
     (case entering SA sa SB sb rs k r of
        None \<Rightarrow> None
      | Some st \<Rightarrow>
          (case round_body SA SB rs r st of
             Inr (Continue st') \<Rightarrow> Some st'
           | _ \<Rightarrow> None))"

section \<open>The strategies of OriginalSimulation.py\<close>

text \<open>
  An instance is its class with the attributes that \<^verbatim>\<open>reset\<close> creates:
  \<^verbatim>\<open>Mouse(opponent_d_played)\<close>, \<^verbatim>\<open>Bully(first_move, d_streak)\<close>,
  \<^verbatim>\<open>Retaliator(state, move_count)\<close> and
  \<^verbatim>\<open>ProberRetaliator(state, move_count, has_probed)\<close>.
\<close>

datatype objO =
    MouseO bool
  | HawkO
  | BullyO bool nat
  | RetaliatorO move nat
  | ProberRetaliatorO move nat bool

fun reset_O :: "objO \<Rightarrow> objO" where
  "reset_O (MouseO _) = MouseO False"
| "reset_O HawkO = HawkO"
| "reset_O (BullyO _ _) = BullyO True 0"
| "reset_O (RetaliatorO _ _) = RetaliatorO ''C'' 0"
| "reset_O (ProberRetaliatorO _ _ _) = ProberRetaliatorO ''C'' 0 False"

text \<open>The tail of \<^verbatim>\<open>ProberRetaliator.choose_move\<close>, from \<^verbatim>\<open>if opp_history:\<close> on.\<close>

definition prober_follow_O :: "move \<Rightarrow> nat \<Rightarrow> bool \<Rightarrow> move list \<Rightarrow> nat \<Rightarrow> move \<times> objO \<times> nat" where
  "prober_follow_O state move_count has_probed opp k =
     (let state' =
        (if opp \<noteq> [] then
           (if last opp = ''D'' then ''C''
            else if has_probed \<and> state = ''D'' then ''D'' else ''C'')
         else state)
      in (state', ProberRetaliatorO state' move_count has_probed, k))"

fun choose_move_O :: "objO \<Rightarrow> move list \<Rightarrow> move list \<Rightarrow> rng \<Rightarrow> nat \<Rightarrow> move \<times> objO \<times> nat" where
  "choose_move_O (MouseO opponent_d_played) my opp rs k =
     (let d = (if opp \<noteq> [] \<and> last opp = ''D'' then True else opponent_d_played) in
      if d then (''R'', MouseO d, k)
      else if length my < MAX_MOVES then (''C'', MouseO d, k)
      else (''R'', MouseO d, k))"
| "choose_move_O HawkO my opp rs k = (''D'', HawkO, k)"
| "choose_move_O (BullyO first_move d_streak) my opp rs k =
     (if first_move then (''D'', BullyO False d_streak, k)
      else
        (let s = (if opp \<noteq> [] \<and> last opp = ''D'' then d_streak + 1 else 0) in
         if s \<ge> 2 then (''R'', BullyO first_move s, k) else (''C'', BullyO first_move s, k)))"
| "choose_move_O (RetaliatorO state move_count) my opp rs k =
     (let c = move_count + 1 in
      if c > MAX_MOVES then (''R'', RetaliatorO state c, k)
      else
        (let state' = (if opp \<noteq> [] then (if last opp = ''D'' then ''D'' else ''C'') else state)
         in (state', RetaliatorO state' c, k)))"
| "choose_move_O (ProberRetaliatorO state move_count has_probed) my opp rs k =
     (let c = move_count + 1 in
      if c > MAX_MOVES then (''R'', ProberRetaliatorO state c has_probed, k)
      else if \<not> has_probed \<and> length my = 0 then
        (case random_random rs k of (u, k') \<Rightarrow>
           if u < PROBE_PROB then (''D'', ProberRetaliatorO ''D'' c True, k')
           else prober_follow_O state c has_probed opp k')
      else prober_follow_O state c has_probed opp k)"

definition class_O :: "objO strategy" where
  "class_O = \<lparr>reset = reset_O, choose_move = (\<lambda>s my opp rs k. Inr (choose_move_O s my opp rs k))\<rparr>"

section \<open>The strategies of GenerationalResult.py\<close>

text \<open>
  \<^verbatim>\<open>Mouse(opponent_d_played)\<close>, \<^verbatim>\<open>Bully(first_move, d_streak)\<close>,
  \<^verbatim>\<open>Retaliator(state, move_count)\<close>, \<^verbatim>\<open>ProberRetaliator(move_count, has_probed)\<close>
  and \<^verbatim>\<open>LongRetaliator(move_count)\<close>.
\<close>

datatype objG =
    MouseG bool
  | HawkG
  | BullyG bool nat
  | RetaliatorG move nat
  | ProberRetaliatorG nat bool
  | LongRetaliatorG nat

fun reset_G :: "objG \<Rightarrow> objG" where
  "reset_G (MouseG _) = MouseG False"
| "reset_G HawkG = HawkG"
| "reset_G (BullyG _ _) = BullyG True 0"
| "reset_G (RetaliatorG _ _) = RetaliatorG ''C'' 0"
| "reset_G (ProberRetaliatorG _ _) = ProberRetaliatorG 0 False"
| "reset_G (LongRetaliatorG _) = LongRetaliatorG 0"

text \<open>The tail of \<^verbatim>\<open>ProberRetaliator.choose_move\<close>, after the probe attempt.\<close>

definition prober_follow_G :: "nat \<Rightarrow> bool \<Rightarrow> move list \<Rightarrow> nat \<Rightarrow> move \<times> objG \<times> nat" where
  "prober_follow_G move_count has_probed opp k =
     (if length opp > 0 \<and> last opp = ''D'' then (''C'', ProberRetaliatorG move_count has_probed, k)
      else if has_probed then (''D'', ProberRetaliatorG move_count has_probed, k)
      else (''C'', ProberRetaliatorG move_count has_probed, k))"

fun choose_move_G :: "objG \<Rightarrow> move list \<Rightarrow> move list \<Rightarrow> rng \<Rightarrow> nat \<Rightarrow> move \<times> objG \<times> nat" where
  "choose_move_G (MouseG opponent_d_played) my opp rs k =
     (let d = (if ''D'' \<in> set opp then True else opponent_d_played) in
      if length my < MAX_MOVES \<and> \<not> d then (''C'', MouseG d, k) else (''R'', MouseG d, k))"
| "choose_move_G HawkG my opp rs k = (''D'', HawkG, k)"
| "choose_move_G (BullyG first_move d_streak) my opp rs k =
     (if first_move then (''D'', BullyG False d_streak, k)
      else
        (let s = (if length opp > 0 \<and> last opp = ''D'' then d_streak + 1 else 0) in
         if s \<ge> 2 then (''R'', BullyG first_move s, k) else (''C'', BullyG first_move s, k)))"
| "choose_move_G (RetaliatorG state move_count) my opp rs k =
     (let c = move_count + 1 in
      if c > MAX_MOVES then (''R'', RetaliatorG state c, k)
      else if length opp > 0 \<and> last opp = ''D'' then (''D'', RetaliatorG state c, k)
      else (''C'', RetaliatorG state c, k))"
| "choose_move_G (ProberRetaliatorG move_count has_probed) my opp rs k =
     (let c = move_count + 1 in
      if c > MAX_MOVES then (''R'', ProberRetaliatorG c has_probed, k)
      else if \<not> has_probed \<and> length my = 0 then
        (case random_random rs k of (u, k') \<Rightarrow>
           if u < PROBE_PROB then (''D'', ProberRetaliatorG c True, k')
           else prober_follow_G c has_probed opp k')
      else prober_follow_G c has_probed opp k)"
| "choose_move_G (LongRetaliatorG move_count) my opp rs k =
     (let c = move_count + 1 in
      if c > MAX_MOVES then (''R'', LongRetaliatorG c, k)
      else if length opp \<ge> 2 \<and> ''D'' \<in> set (drop (length opp - 2) opp)
        then (''D'', LongRetaliatorG c, k)
      else (''C'', LongRetaliatorG c, k))"

definition class_G :: "objG strategy" where
  "class_G = \<lparr>reset = reset_G, choose_move = (\<lambda>s my opp rs k. Inr (choose_move_G s my opp rs k))\<rparr>"

section \<open>The calling discipline of a contest, seen from one side\<close>

text \<open>
  \<^verbatim>\<open>play_contest\<close> calls \<^verbatim>\<open>choose_move\<close> of a side once per round, on its own moves so
  far and on the opponent's moves so far. \<open>drive\<close> runs one side against the opponent's
  moves \<open>os\<close> of the coming rounds and collects the moves the side returns.
\<close>

fun drive ::
  "('s \<Rightarrow> move list \<Rightarrow> move list \<Rightarrow> rng \<Rightarrow> nat \<Rightarrow> move \<times> 's \<times> nat) \<Rightarrow>
     's \<Rightarrow> move list \<Rightarrow> move list \<Rightarrow> move list \<Rightarrow> rng \<Rightarrow> nat \<Rightarrow> move list" where
  "drive f s my opp [] rs k = []"
| "drive f s my opp (x # os) rs k =
     (case f s my opp rs k of (m, s', k') \<Rightarrow> m # drive f s' (my @ [m]) (opp @ [x]) os rs k')"

section \<open>The calls into the random module\<close>

text \<open>
  The evolutionary engine also calls \<^verbatim>\<open>random.choices\<close>, \<^verbatim>\<open>random.shuffle\<close> and
  \<^verbatim>\<open>random.randrange\<close>. They belong to the standard library, not to the repository, and
  are written here the way the library documents and implements them, over the same
  source: a random integer below \<open>n\<close> is the next raw value reduced to \<open>range(n)\<close>.
\<close>

definition randbelow :: "nat \<Rightarrow> rng \<Rightarrow> nat \<Rightarrow> nat \<times> nat" where
  "randbelow n rs k = (rs k mod n, Suc k)"

text \<open>\<^verbatim>\<open>random.randrange(n)\<close> raises \<^verbatim>\<open>ValueError\<close> on an empty range.\<close>

definition random_randrange :: "nat \<Rightarrow> rng \<Rightarrow> nat \<Rightarrow> error + (nat \<times> nat)" where
  "random_randrange n rs k = (if n = 0 then Inl ValueError else Inr (randbelow n rs k))"

text \<open>
  A float is taken as the real number it denotes. The sampling phase turns floats into
  counts and into positions of a list, and there the rounding of a double product or sum
  decides the outcome: \<^verbatim>\<open>int(freq * population_size)\<close>, the cumulative weights, and
  \<^verbatim>\<open>random() * total\<close>. The double product and the double sum are therefore parameters
  of the engine; what is proved holds for every pair of operations, so for the machine's.
\<close>

record float_ops =
  fmul :: "real \<Rightarrow> real \<Rightarrow> real"
  fadd :: "real \<Rightarrow> real \<Rightarrow> real"

text \<open>\<^verbatim>\<open>itertools.accumulate\<close>: the first weight, then the running double sums.\<close>

fun accumulate_from :: "float_ops \<Rightarrow> real \<Rightarrow> real list \<Rightarrow> real list" where
  "accumulate_from fl acc [] = []"
| "accumulate_from fl acc (w # ws) = fadd fl acc w # accumulate_from fl (fadd fl acc w) ws"

fun accumulate :: "float_ops \<Rightarrow> real list \<Rightarrow> real list" where
  "accumulate fl [] = []"
| "accumulate fl (w # ws) = w # accumulate_from fl w ws"

text \<open>
  \<^verbatim>\<open>bisect(a, x, 0, hi)\<close> on a sorted list: the number of entries among the first \<open>hi\<close>
  that are at most \<open>x\<close>, which is the index of the first entry above \<open>x\<close>.
\<close>

definition bisect :: "real list \<Rightarrow> real \<Rightarrow> nat \<Rightarrow> nat" where
  "bisect a x hi = length (takeWhile (\<lambda>c. c \<le> x) (take hi a))"

text \<open>
  \<^verbatim>\<open>random.choices(population, weights)[0]\<close>: the cumulative weights are searched for
  \<^verbatim>\<open>random() * total\<close>, up to the last position. It raises on a weight list of another
  length, on an empty population and on a total that is not positive. The total is
  \<^verbatim>\<open>cum_weights[-1] + 0.0\<close>, which for a float is \<^verbatim>\<open>cum_weights[-1]\<close> itself.
\<close>

definition random_choices ::
  "float_ops \<Rightarrow> 'a list \<Rightarrow> real list \<Rightarrow> rng \<Rightarrow> nat \<Rightarrow> error + ('a \<times> nat)" where
  "random_choices fl population weights rs k =
     (let cum_weights = accumulate fl weights in
      if length cum_weights \<noteq> length population then Inl ValueError
      else if cum_weights = [] then Inl IndexError
      else
        (let total = last cum_weights in
         if total \<le> 0 then Inl ValueError
         else
           (case random_random rs k of (u, k') \<Rightarrow>
              Inr (population ! bisect cum_weights (fmul fl u total) (length population - 1),
                   k'))))"

text \<open>
  \<^verbatim>\<open>random.shuffle(x)\<close>: for \<open>i\<close> from \<open>len(x) - 1\<close> down to 1, swap \<open>x[i]\<close> with
  \<open>x[j]\<close> for a random \<open>j\<close> below \<open>i + 1\<close>.
\<close>

fun shuffle_loop :: "nat list \<Rightarrow> 'a list \<Rightarrow> rng \<Rightarrow> nat \<Rightarrow> 'a list \<times> nat" where
  "shuffle_loop [] x rs k = (x, k)"
| "shuffle_loop (i # is) x rs k =
     (case randbelow (i + 1) rs k of (j, k') \<Rightarrow>
        shuffle_loop is (x[i := x ! j, j := x ! i]) rs k')"

definition random_shuffle :: "'a list \<Rightarrow> rng \<Rightarrow> nat \<Rightarrow> 'a list \<times> nat" where
  "random_shuffle x rs k = shuffle_loop (rev [1..<length x]) x rs k"

section \<open>The evolutionary engine of GenerationalResult.py\<close>

text \<open>
  The strategy classes that can be listed in \<^verbatim>\<open>strategies\<close>, the instance that calling a
  class creates (\<^verbatim>\<open>__init__\<close> calls \<^verbatim>\<open>reset\<close>), and \<^verbatim>\<open>isinstance\<close>. Frequencies and
  fitness values are floats, taken as the real numbers they denote, and the fitness
  transform, the normalization and the mutation step compute with them as real numbers;
  \<^verbatim>\<open>population_size\<close> is a number of individuals.
\<close>

datatype kind = Mouse | Hawk | Bully | Retaliator | ProberRetaliator | LongRetaliator

fun new :: "kind \<Rightarrow> objG" where
  "new Mouse = MouseG False"
| "new Hawk = HawkG"
| "new Bully = BullyG True 0"
| "new Retaliator = RetaliatorG ''C'' 0"
| "new ProberRetaliator = ProberRetaliatorG 0 False"
| "new LongRetaliator = LongRetaliatorG 0"

fun class_of :: "objG \<Rightarrow> kind" where
  "class_of (MouseG _) = Mouse"
| "class_of HawkG = Hawk"
| "class_of (BullyG _ _) = Bully"
| "class_of (RetaliatorG _ _) = Retaliator"
| "class_of (ProberRetaliatorG _ _) = ProberRetaliator"
| "class_of (LongRetaliatorG _) = LongRetaliator"

definition isinstance :: "objG \<Rightarrow> kind \<Rightarrow> bool" where
  "isinstance ind s = (class_of ind = s)"

type_synonym distribution = "(kind \<times> real) list"

text \<open>\<^verbatim>\<open>int(x)\<close> of a float truncates towards zero.\<close>

definition py_int :: "real \<Rightarrow> int" where
  "py_int x = (if 0 \<le> x then \<lfloor>x\<rfloor> else \<lceil>x\<rceil>)"

text \<open>
  \<^verbatim>\<open>for strat, freq in population: count = int(freq * population_size);
  individuals.extend([strat() for _ in range(count)])\<close>, where the product is the double
  product of \<^verbatim>\<open>freq\<close> and of \<^verbatim>\<open>population_size\<close> as a float.
\<close>

fun instantiate :: "float_ops \<Rightarrow> distribution \<Rightarrow> nat \<Rightarrow> objG list \<Rightarrow> objG list" where
  "instantiate fl [] population_size individuals = individuals"
| "instantiate fl ((strat, freq) # population) population_size individuals =
     (let count = py_int (fmul fl freq (real population_size)) in
      instantiate fl population population_size
        (individuals @ replicate (nat count) (new strat)))"

text \<open>\<^verbatim>\<open>while len(individuals) < population_size:\<close> add an individual of a drawn class.\<close>

function fill ::
  "float_ops \<Rightarrow> kind list \<Rightarrow> distribution \<Rightarrow> nat \<Rightarrow> objG list \<Rightarrow> rng \<Rightarrow> nat \<Rightarrow>
     error + (objG list \<times> nat)" where
  "fill fl strategies population population_size individuals rs k =
     (if length individuals < population_size then
        (case random_choices fl strategies (map snd population) rs k of
           Inl e \<Rightarrow> Inl e
         | Inr (chosen_strat, k') \<Rightarrow>
             fill fl strategies population population_size (individuals @ [new chosen_strat])
               rs k')
      else Inr (individuals, k))"
  by pat_completeness auto
termination
  by (relation "measure (\<lambda>(fl, strategies, population, population_size, individuals, rs, k).
        population_size - length individuals)") auto

text \<open>\<^verbatim>\<open>while len(individuals) > population_size: individuals.pop()\<close>\<close>

function trim :: "nat \<Rightarrow> objG list \<Rightarrow> objG list" where
  "trim population_size individuals =
     (if length individuals > population_size then trim population_size (butlast individuals)
      else individuals)"
  by pat_completeness auto
termination
  by (relation "measure (\<lambda>(population_size, individuals). length individuals)") auto

text \<open>The sampling phase: the list \<^verbatim>\<open>individuals\<close> before the shuffle.\<close>

definition sampling ::
  "float_ops \<Rightarrow> kind list \<Rightarrow> distribution \<Rightarrow> nat \<Rightarrow> rng \<Rightarrow> nat \<Rightarrow>
     error + (objG list \<times> nat)" where
  "sampling fl strategies population population_size rs k =
     (case fill fl strategies population population_size
             (instantiate fl population population_size []) rs k of
        Inl e \<Rightarrow> Inl e
      | Inr (individuals, k') \<Rightarrow> Inr (trim population_size individuals, k'))"

text \<open>\<^verbatim>\<open>range(0, population_size, 2)\<close>\<close>

definition range_step2 :: "nat \<Rightarrow> nat list" where
  "range_step2 n = map (\<lambda>j. 2 * j) [0..<(n + 1) div 2]"

text \<open>
  The contest phase. Reading \<^verbatim>\<open>individuals[i]\<close>, \<^verbatim>\<open>individuals[i+1]\<close>, \<^verbatim>\<open>payoffs[i]\<close> or
  \<^verbatim>\<open>payoffs[i+1]\<close> past the end raises \<^verbatim>\<open>IndexError\<close>. The two instances are used
  afterwards for their class only.
\<close>

fun contest_phase ::
  "nat list \<Rightarrow> objG list \<Rightarrow> int list \<Rightarrow> rng \<Rightarrow> nat \<Rightarrow> error + (int list \<times> nat)" where
  "contest_phase [] individuals payoffs rs k = Inr (payoffs, k)"
| "contest_phase (i # is) individuals payoffs rs k =
     (if i \<ge> length individuals then Inl IndexError
      else if i + 1 \<ge> length individuals then Inl IndexError
      else
        (case play_contest class_G (individuals ! i) class_G (individuals ! (i + 1)) rs k of
           Inl e \<Rightarrow> Inl e
         | Inr ((scoreA, scoreB), k') \<Rightarrow>
             if i \<ge> length payoffs then Inl IndexError
             else
               (let payoffs1 = payoffs[i := payoffs ! i + scoreA] in
                if i + 1 \<ge> length payoffs1 then Inl IndexError
                else contest_phase is individuals
                       (payoffs1[i + 1 := payoffs1 ! (i + 1) + scoreB]) rs k')))"

text \<open>
  The aggregation. The dictionaries \<^verbatim>\<open>strat_payoffs\<close> and \<^verbatim>\<open>strat_counts\<close> start at 0 for
  every class of \<^verbatim>\<open>strategies\<close> and are only read at those keys. An individual is
  credited to the first class of \<^verbatim>\<open>strategies\<close> it is an instance of.
\<close>

fun credit ::
  "kind list \<Rightarrow> objG \<Rightarrow> int \<Rightarrow> (kind \<Rightarrow> int) \<times> (kind \<Rightarrow> nat) \<Rightarrow> (kind \<Rightarrow> int) \<times> (kind \<Rightarrow> nat)" where
  "credit [] ind payoff (strat_payoffs, strat_counts) = (strat_payoffs, strat_counts)"
| "credit (s # ss) ind payoff (strat_payoffs, strat_counts) =
     (if isinstance ind s
      then (strat_payoffs(s := strat_payoffs s + payoff), strat_counts(s := strat_counts s + 1))
      else credit ss ind payoff (strat_payoffs, strat_counts))"

definition aggregate ::
  "kind list \<Rightarrow> objG list \<Rightarrow> int list \<Rightarrow> (kind \<Rightarrow> int) \<times> (kind \<Rightarrow> nat)" where
  "aggregate strategies individuals payoffs =
     fold (\<lambda>(ind, payoff). credit strategies ind payoff) (zip individuals payoffs)
       (\<lambda>s. 0, \<lambda>s. 0)"

text \<open>\<^verbatim>\<open>fitness = max(avg_pay + 100, 0.01)\<close>, with \<^verbatim>\<open>avg_pay = 0\<close> for an absent class.\<close>

definition fitness :: "(kind \<Rightarrow> int) \<times> (kind \<Rightarrow> nat) \<Rightarrow> kind \<Rightarrow> real" where
  "fitness agg s =
     (let avg_pay = (if snd agg s > 0 then real_of_int (fst agg s) / real (snd agg s) else 0)
      in max (avg_pay + 100) (1 / 100))"

text \<open>The new frequencies: every fitness divided by \<^verbatim>\<open>total_fitness\<close>.\<close>

definition normalize :: "kind list \<Rightarrow> (kind \<Rightarrow> int) \<times> (kind \<Rightarrow> nat) \<Rightarrow> distribution" where
  "normalize strategies agg =
     (let new_population = map (\<lambda>s. (s, fitness agg s)) strategies;
          total_fitness = sum_list (map snd new_population)
      in map (\<lambda>(s, f). (s, f / total_fitness)) new_population)"

text \<open>
  \<^verbatim>\<open>for i, (st, fr) in enumerate(population): if st is Hawk: population[i] = (st, fr +
  mutation_amount); break\<close>
\<close>

fun give_to_hawk :: "distribution \<Rightarrow> real \<Rightarrow> distribution" where
  "give_to_hawk [] amount = []"
| "give_to_hawk ((st, fr) # population) amount =
     (if st = Hawk then (st, fr + amount) # population
      else (st, fr) # give_to_hawk population amount)"

text \<open>\<^verbatim>\<open>mutation_amount = min(freq*0.1, 0.05)\<close>\<close>

definition mutation_amount :: "real \<Rightarrow> real" where
  "mutation_amount freq = min (freq * (1 / 10)) (1 / 20)"

text \<open>The mutation step.\<close>

definition mutation :: "distribution \<Rightarrow> rng \<Rightarrow> nat \<Rightarrow> error + (distribution \<times> nat)" where
  "mutation population rs k =
     (case random_random rs k of (u, k1) \<Rightarrow>
        if u < MUTATION_RATE then
          (case random_randrange (length population) rs k1 of
             Inl e \<Rightarrow> Inl e
           | Inr (mut_index, k2) \<Rightarrow>
               (case population ! mut_index of (s, freq) \<Rightarrow>
                  if s \<noteq> Hawk then
                    Inr (give_to_hawk
                           (population[mut_index := (s, freq - mutation_amount freq)])
                           (mutation_amount freq), k2)
                  else Inr (population, k2)))
        else Inr (population, k1))"

text \<open>One pass of the loop over the generations.\<close>

definition generation ::
  "float_ops \<Rightarrow> kind list \<Rightarrow> distribution \<Rightarrow> nat \<Rightarrow> rng \<Rightarrow> nat \<Rightarrow>
     error + (distribution \<times> nat)" where
  "generation fl strategies population population_size rs k =
     (case sampling fl strategies population population_size rs k of
        Inl e \<Rightarrow> Inl e
      | Inr (sampled, k1) \<Rightarrow>
          (case random_shuffle sampled rs k1 of (individuals, k2) \<Rightarrow>
             (case contest_phase (range_step2 population_size) individuals
                     (replicate population_size 0) rs k2 of
                Inl e \<Rightarrow> Inl e
              | Inr (payoffs, k3) \<Rightarrow>
                  mutation (normalize strategies (aggregate strategies individuals payoffs))
                    rs k3)))"

fun generations_loop ::
  "float_ops \<Rightarrow> nat \<Rightarrow> kind list \<Rightarrow> distribution \<Rightarrow> nat \<Rightarrow> rng \<Rightarrow> nat \<Rightarrow>
     error + (distribution \<times> nat)" where
  "generations_loop fl 0 strategies population population_size rs k = Inr (population, k)"
| "generations_loop fl (Suc g) strategies population population_size rs k =
     (case generation fl strategies population population_size rs k of
        Inl e \<Rightarrow> Inl e
      | Inr (population', k') \<Rightarrow>
          generations_loop fl g strategies population' population_size rs k')"

definition evolutionary_simulation ::
  "float_ops \<Rightarrow> kind list \<Rightarrow> real list \<Rightarrow> nat \<Rightarrow> nat \<Rightarrow> rng \<Rightarrow> nat \<Rightarrow>
     error + (distribution \<times> nat)" where
  "evolutionary_simulation fl strategies initial_distribution generations population_size rs k =
     generations_loop fl generations strategies (zip strategies initial_distribution)
       population_size rs k"

text \<open>The first position of Hawk in a distribution, or its length when Hawk is absent.\<close>

definition hawk_index :: "distribution \<Rightarrow> nat" where
  "hawk_index population = length (takeWhile (\<lambda>p. fst p \<noteq> Hawk) population)"

text \<open>
  The individuals of the first loop of the sampling phase, the cumulative weights that
  \<^verbatim>\<open>random.choices\<close> builds from the frequencies, the value \<^verbatim>\<open>random() * total\<close> that it
  looks up with the draw at \<open>k\<close>, and the position in \<^verbatim>\<open>strategies\<close> that it selects.
\<close>

definition floor_instances :: "float_ops \<Rightarrow> distribution \<Rightarrow> nat \<Rightarrow> objG list" where
  "floor_instances fl population population_size =
     concat (map (\<lambda>(strat, freq).
       replicate (nat \<lfloor>fmul fl freq (real population_size)\<rfloor>) (new strat)) population)"

definition cum_weights :: "float_ops \<Rightarrow> distribution \<Rightarrow> real list" where
  "cum_weights fl population = accumulate fl (map snd population)"

definition looked_up :: "float_ops \<Rightarrow> distribution \<Rightarrow> rng \<Rightarrow> nat \<Rightarrow> real" where
  "looked_up fl population rs k =
     fmul fl (fst (random_random rs k)) (last (cum_weights fl population))"

definition drawn_index :: "float_ops \<Rightarrow> distribution \<Rightarrow> rng \<Rightarrow> nat \<Rightarrow> nat" where
  "drawn_index fl population rs k =
     bisect (cum_weights fl population) (looked_up fl population rs k) (length population - 1)"

section \<open>Inputs for the examples\<close>

text \<open>
  A random source given by its first raw values; past them every \<^verbatim>\<open>random.random()\<close>
  is \<open>0.5\<close>. The raw value \<open>0\<close> makes \<^verbatim>\<open>random.random()\<close> return \<open>0.0\<close>.
\<close>

definition raw_stream :: "nat list \<Rightarrow> rng" where
  "raw_stream xs k = (if k < length xs then xs ! k else 2 ^ 52)"

text \<open>
  How the retreat checks and the dangerous-act tests of \<^verbatim>\<open>play_contest\<close> read a move:
  anything that is neither \<^verbatim>\<open>'R'\<close> nor \<^verbatim>\<open>'D'\<close> passes every test as \<^verbatim>\<open>'C'\<close> does.
\<close>

definition as_resolved :: "move \<Rightarrow> move" where
  "as_resolved m = (if m = ''R'' \<or> m = ''D'' then m else ''C'')"

text \<open>
  The double operations on operands whose exact product or sum is a double: nothing is
  rounded. The examples use such operands only: halves, quarters and small integers,
  and products by 1.
\<close>

definition unrounded :: float_ops where
  "unrounded = \<lparr>fmul = (\<lambda>x y. x * y), fadd = (\<lambda>x y. x + y)\<rparr>"

section \<open>Properties of the contest resolver\<close>

lemmas payoff_defs = MAX_MOVES_def P_INJURY_def time_bonus_def TIME_BONUS_START_def
  TIME_BONUS_DECREMENT_def WIN_PAYOFF_def SCRATCH_def SERIOUS_INJURY_def PROBE_PROB_def

lemmas contest_defs = play_contest_def contest_start_def round_body_def resolve_def
  dangerous_A_def dangerous_B_def random_random_def raw_stream_def

lemma entering_Suc:
  assumes "entering SA sa SB sb rs k (Suc r) = Some st"
  obtains st0 where "entering SA sa SB sb rs k r = Some st0"
    and "round_body SA SB rs r st0 = Inr (Continue st)"
  using assms by (auto split: option.splits sum.splits step.splits)

text \<open>A contest that enters round \<open>r\<close> with locals \<open>st\<close> is decided by the rounds from \<open>r\<close> on.\<close>

lemma play_contest_from:
  "entering SA sa SB sb rs k r = Some st \<Longrightarrow> r \<le> MAX_MOVES \<Longrightarrow>
     play_contest SA sa SB sb rs k = contest_rounds SA SB rs [r..<MAX_MOVES] st"
proof (induction r arbitrary: st)
  case 0
  then show ?case by (simp add: play_contest_def)
next
  case (Suc r)
  from Suc.prems(1) obtain st0 where e: "entering SA sa SB sb rs k r = Some st0"
    and b: "round_body SA SB rs r st0 = Inr (Continue st)"
    by (rule entering_Suc)
  from Suc.prems(2) have lt: "r < MAX_MOVES" by simp
  have "play_contest SA sa SB sb rs k = contest_rounds SA SB rs [r..<MAX_MOVES] st0"
    using Suc.IH [OF e] lt by simp
  also have "\<dots> = contest_rounds SA SB rs (r # [Suc r..<MAX_MOVES]) st0"
    using lt by (simp add: upt_conv_Cons)
  also have "\<dots> = contest_rounds SA SB rs [Suc r..<MAX_MOVES] st"
    using b by simp
  finally show ?case .
qed

lemma play_contest_round:
  assumes "entering SA sa SB sb rs k r = Some st" and "r < MAX_MOVES"
    and "choose_move SA (A_state st) (A_history st) (B_history st) rs (draws st) = Inr (a, sa', k1)"
    and "choose_move SB (B_state st) (B_history st) (A_history st) rs k1 = Inr (b, sb', k2)"
  shows "play_contest SA sa SB sb rs k =
     (case resolve a b r rs (st\<lparr>A_state := sa', B_state := sb',
                          A_history := A_history st @ [a],
                          B_history := B_history st @ [b],
                          draws := k2\<rparr>) of
        Return scores k' \<Rightarrow> Inr (scores, k')
      | Continue st' \<Rightarrow> contest_rounds SA SB rs [Suc r..<MAX_MOVES] st')"
proof -
  have "play_contest SA sa SB sb rs k = contest_rounds SA SB rs (r # [Suc r..<MAX_MOVES]) st"
    using play_contest_from [OF assms(1)] assms(2) by (simp add: upt_conv_Cons)
  then show ?thesis
    using assms(3,4) by (simp add: round_body_def)
qed

lemma resolve_as_resolved:
  "resolve a b moves rs st = resolve (as_resolved a) (as_resolved b) moves rs st"
  by (cases "a = ''R''"; cases "a = ''D''"; cases "b = ''R''"; cases "b = ''D''";
      simp add: resolve_def dangerous_A_def dangerous_B_def as_resolved_def split: prod.splits)

text \<open>
  C1. Let \<^verbatim>\<open>play_contest\<close> enter round \<open>r\<close> (0-indexed) with the locals \<open>st\<close>, and let
  exactly one of the two moves of that round be \<^verbatim>\<open>'R'\<close>. Then the contest returns in
  that round: the side that did not retreat gets its accumulated score plus
  \<^verbatim>\<open>WIN_PAYOFF\<close> plus \<open>max 0 (TIME_BONUS_START - TIME_BONUS_DECREMENT * r)\<close>, the
  retreating side keeps its accumulated score, and the bonus is not negative.
\<close>

theorem solitary_retreat_ends_contest:
  assumes "entering SA sa SB sb rs k r = Some st" and "r < MAX_MOVES"
    and "choose_move SA (A_state st) (A_history st) (B_history st) rs (draws st) = Inr (a, sa', k1)"
    and "choose_move SB (B_state st) (B_history st) (A_history st) rs k1 = Inr (b, sb', k2)"
    and "(a = ''R'') \<noteq> (b = ''R'')"
  shows "play_contest SA sa SB sb rs k =
           Inr (if a = ''R''
                then (A_score st,
                      B_score st + WIN_PAYOFF
                        + max 0 (TIME_BONUS_START - TIME_BONUS_DECREMENT * int r))
                else (A_score st + WIN_PAYOFF
                        + max 0 (TIME_BONUS_START - TIME_BONUS_DECREMENT * int r),
                      B_score st), k2)
         \<and> 0 \<le> max 0 (TIME_BONUS_START - TIME_BONUS_DECREMENT * int r)"
  using assms(5) unfolding play_contest_round [OF assms(1-4)]
  by (auto simp add: resolve_def time_bonus_def max.commute)

text \<open>
  Mouse against Hawk with no injury: Mouse cooperates in round 0 and is scratched, sees
  the dangerous act and retreats in round 1; Hawk wins \<open>60 + (20 - 2 * 1)\<close>.
\<close>

theorem solitary_retreat_witness:
  "play_contest class_G (MouseG False) class_G HawkG (raw_stream []) 0 = Inr ((- 2, 78), 1)"
proof -
  let ?st = "\<lparr>A_state = MouseG False, B_state = HawkG, A_history = [''C''],
     B_history = [''D''], A_score = - 2, B_score = 0, draws = 1\<rparr>"
  have e: "entering class_G (MouseG False) class_G HawkG (raw_stream []) 0 1 = Some ?st"
    by (simp add: contest_defs class_G_def payoff_defs)
  have r: "(1::nat) < MAX_MOVES" by (simp add: MAX_MOVES_def)
  have a: "choose_move class_G (A_state ?st) (A_history ?st) (B_history ?st) (raw_stream [])
     (draws ?st) = Inr (''R'', MouseG True, 1)"
    by (simp add: class_G_def MAX_MOVES_def)
  have b: "choose_move class_G (B_state ?st) (B_history ?st) (A_history ?st) (raw_stream []) 1
     = Inr (''D'', HawkG, 1)"
    by (simp add: class_G_def)
  have d: "(''R'' = ''R'') \<noteq> (''D'' = ''R'')" by simp
  from solitary_retreat_ends_contest [OF e r a b d]
  show ?thesis by (simp add: payoff_defs)
qed

text \<open>
  C2, as the code has it. Let \<^verbatim>\<open>play_contest\<close> enter round \<open>r\<close> with the locals \<open>st\<close>,
  let neither side retreat, and let an injury roll of that round succeed (A's roll is the
  draw at \<open>k2\<close>; B's roll is the next draw after A's, or the draw at \<open>k2\<close> when A did
  not play \<^verbatim>\<open>'D'\<close>). Then the contest returns in that round. The injured side gets its
  score at entry to the round plus \<^verbatim>\<open>SERIOUS_INJURY\<close>, once. When A is the acting side it
  gets its score at entry plus \<^verbatim>\<open>WIN_PAYOFF\<close> plus the time bonus. When B is the acting
  side it gets the same, and also the \<^verbatim>\<open>SCRATCH\<close> of A's failed dangerous act of this
  round when A played \<^verbatim>\<open>'D'\<close>.
\<close>

theorem injury_ends_contest:
  assumes "entering SA sa SB sb rs k r = Some st" and "r < MAX_MOVES"
    and "choose_move SA (A_state st) (A_history st) (B_history st) rs (draws st) = Inr (a, sa', k1)"
    and "choose_move SB (B_state st) (B_history st) (A_history st) rs k1 = Inr (b, sb', k2)"
    and "a \<noteq> ''R''" and "b \<noteq> ''R''"
    and "(a = ''D'' \<and> fst (random_random rs k2) < P_INJURY) \<or>
         (b = ''D'' \<and> fst (random_random rs (if a = ''D'' then Suc k2 else k2)) < P_INJURY)"
  shows "play_contest SA sa SB sb rs k =
     (if a = ''D'' \<and> fst (random_random rs k2) < P_INJURY
      then Inr ((A_score st + WIN_PAYOFF
                   + max 0 (TIME_BONUS_START - TIME_BONUS_DECREMENT * int r),
                 B_score st + SERIOUS_INJURY), Suc k2)
      else Inr ((A_score st + SERIOUS_INJURY,
                 B_score st + (if a = ''D'' then SCRATCH else 0) + WIN_PAYOFF
                   + max 0 (TIME_BONUS_START - TIME_BONUS_DECREMENT * int r)),
                Suc (if a = ''D'' then Suc k2 else k2)))"
  using assms(5-7) unfolding play_contest_round [OF assms(1-4)]
  by (auto simp add: resolve_def dangerous_A_def dangerous_B_def random_random_def
      time_bonus_def max.commute)

text \<open>
  Hawk against Hawk, round 0: A's roll (\<open>0.5\<close>) fails and scratches B, B's roll (\<open>0.0\<close>)
  injures A. B ends with \<open>- 2 + 60 + 20 = 78\<close>, not with \<open>0 + 60 + 20\<close>.
\<close>

theorem injury_ends_contest_witness:
  "play_contest class_G HawkG class_G HawkG (raw_stream [2 ^ 52, 0]) 0 = Inr ((- 100, 78), 2)"
proof -
  let ?rs = "raw_stream [2 ^ 52, 0]"
  let ?st = "contest_start class_G HawkG class_G HawkG 0"
  have e: "entering class_G HawkG class_G HawkG ?rs 0 0 = Some ?st"
    by simp
  have r: "(0::nat) < MAX_MOVES" by (simp add: MAX_MOVES_def)
  have a: "choose_move class_G (A_state ?st) (A_history ?st) (B_history ?st) ?rs (draws ?st)
     = Inr (''D'', HawkG, 0)"
    by (simp add: class_G_def contest_start_def)
  have b: "choose_move class_G (B_state ?st) (B_history ?st) (A_history ?st) ?rs 0
     = Inr (''D'', HawkG, 0)"
    by (simp add: class_G_def contest_start_def)
  have n: "''D'' \<noteq> ''R''" by simp
  have i: "(''D'' = ''D'' \<and> fst (random_random ?rs 0) < P_INJURY) \<or>
     (''D'' = ''D'' \<and> fst (random_random ?rs (if ''D'' = ''D'' then Suc 0 else 0)) < P_INJURY)"
    by (simp add: random_random_def raw_stream_def P_INJURY_def)
  from injury_ends_contest [OF e r a b n n i]
  show ?thesis
    by (simp add: contest_start_def payoff_defs random_random_def raw_stream_def)
qed

theorem injury_acting_side_counterexample:
  "entering class_G HawkG class_G HawkG (raw_stream [2 ^ 52, 0]) 0 0
     = Some (contest_start class_G HawkG class_G HawkG 0)
   \<and> B_score (contest_start class_G HawkG class_G HawkG 0) = 0
   \<and> fst (random_random (raw_stream [2 ^ 52, 0]) 1) < P_INJURY
   \<and> play_contest class_G HawkG class_G HawkG (raw_stream [2 ^ 52, 0]) 0
       = Inr ((- 100, 78), 2)
   \<and> (78 :: int) \<noteq> 0 + WIN_PAYOFF + max 0 (TIME_BONUS_START - TIME_BONUS_DECREMENT * int 0)"
  by (simp add: contest_defs class_G_def payoff_defs upt_conv_Cons)

text \<open>
  C3. When both sides play \<^verbatim>\<open>'D'\<close> in round \<open>r\<close>, A's injury roll is the first draw
  after the two \<^verbatim>\<open>choose_move\<close> calls (position \<open>k2\<close>). If it injures B the contest
  returns with the random source at \<open>k2 + 1\<close>: B's roll has not been drawn. Only when A's
  roll fails is B's roll drawn, as the next draw.
\<close>

theorem both_dangerous_A_rolls_first:
  assumes "entering SA sa SB sb rs k r = Some st" and "r < MAX_MOVES"
    and "choose_move SA (A_state st) (A_history st) (B_history st) rs (draws st)
           = Inr (''D'', sa', k1)"
    and "choose_move SB (B_state st) (B_history st) (A_history st) rs k1 = Inr (''D'', sb', k2)"
  shows "play_contest SA sa SB sb rs k =
     (if fst (random_random rs k2) < P_INJURY
      then Inr ((A_score st + WIN_PAYOFF + max (time_bonus r) 0, B_score st + SERIOUS_INJURY),
                Suc k2)
      else if fst (random_random rs (Suc k2)) < P_INJURY
      then Inr ((A_score st + SERIOUS_INJURY,
                 B_score st + SCRATCH + WIN_PAYOFF + max (time_bonus r) 0), Suc (Suc k2))
      else contest_rounds SA SB rs [Suc r..<MAX_MOVES]
             (st\<lparr>A_state := sa', B_state := sb',
                 A_history := A_history st @ [''D''], B_history := B_history st @ [''D''],
                 B_score := B_score st + SCRATCH, A_score := A_score st + SCRATCH,
                 draws := Suc (Suc k2)\<rparr>))"
  unfolding play_contest_round [OF assms(1-4)]
  by (simp add: resolve_def dangerous_A_def dangerous_B_def random_random_def)

text \<open>
  Hawk against Hawk where both rolls of round 0 would injure: A's roll decides, and one
  draw has been consumed.
\<close>

theorem both_dangerous_witness:
  "play_contest class_G HawkG class_G HawkG (raw_stream [0, 0]) 0 = Inr ((80, - 100), 1)"
proof -
  let ?rs = "raw_stream [0, 0]"
  let ?st = "contest_start class_G HawkG class_G HawkG 0"
  have e: "entering class_G HawkG class_G HawkG ?rs 0 0 = Some ?st"
    by simp
  have r: "(0::nat) < MAX_MOVES" by (simp add: MAX_MOVES_def)
  have a: "choose_move class_G (A_state ?st) (A_history ?st) (B_history ?st) ?rs (draws ?st)
     = Inr (''D'', HawkG, 0)"
    by (simp add: class_G_def contest_start_def)
  have b: "choose_move class_G (B_state ?st) (B_history ?st) (A_history ?st) ?rs 0
     = Inr (''D'', HawkG, 0)"
    by (simp add: class_G_def contest_start_def)
  from both_dangerous_A_rolls_first [OF e r a b]
  show ?thesis
    by (simp add: contest_start_def payoff_defs random_random_def raw_stream_def)
qed

text \<open>
  C4, as the code has it. \<^verbatim>\<open>play_contest\<close> never inspects a move beyond the comparisons
  with \<^verbatim>\<open>'R'\<close> and \<^verbatim>\<open>'D'\<close>: when both \<^verbatim>\<open>choose_move\<close> calls of a round return, the round
  raises nothing, the returned moves are appended to the histories as they are, and the
  round is resolved as if every move other than \<^verbatim>\<open>'R'\<close> and \<^verbatim>\<open>'D'\<close> were \<^verbatim>\<open>'C'\<close>.
\<close>

theorem illegal_move_resolved_as_cooperate:
  assumes "choose_move SA (A_state st) (A_history st) (B_history st) rs (draws st)
             = Inr (a, sa', k1)"
    and "choose_move SB (B_state st) (B_history st) (A_history st) rs k1 = Inr (b, sb', k2)"
  shows "round_body SA SB rs moves st =
     Inr (resolve (as_resolved a) (as_resolved b) moves rs
            (st\<lparr>A_state := sa', B_state := sb',
                A_history := A_history st @ [a], B_history := B_history st @ [b],
                draws := k2\<rparr>))"
  using assms resolve_as_resolved [of a b]
  by (simp add: round_body_def)

text \<open>A strategy that answers \<^verbatim>\<open>'X'\<close>, against Hawk: round 0 goes on to round 1.\<close>

theorem illegal_move_witness:
  "round_body \<lparr>reset = (\<lambda>s. s), choose_move = (\<lambda>s my opp rs k. Inr (''X'', s, k))\<rparr> class_G
     (raw_stream []) 0
     \<lparr>A_state = (), B_state = HawkG, A_history = [], B_history = [],
      A_score = 0, B_score = 0, draws = 0\<rparr>
   = Inr (Continue \<lparr>A_state = (), B_state = HawkG, A_history = [''X''], B_history = [''D''],
      A_score = - 2, B_score = 0, draws = 1\<rparr>)"
proof -
  let ?SA = "\<lparr>reset = (\<lambda>s::unit. s), choose_move = (\<lambda>s my opp rs k. Inr (''X'', s, k))\<rparr>"
  let ?st = "\<lparr>A_state = (), B_state = HawkG, A_history = [], B_history = [],
      A_score = 0, B_score = 0, draws = 0\<rparr>"
  have a: "choose_move ?SA (A_state ?st) (A_history ?st) (B_history ?st) (raw_stream [])
     (draws ?st) = Inr (''X'', (), 0)"
    by simp
  have b: "choose_move class_G (B_state ?st) (B_history ?st) (A_history ?st) (raw_stream []) 0
     = Inr (''D'', HawkG, 0)"
    by (simp add: class_G_def)
  from illegal_move_resolved_as_cooperate [OF a b, of 0]
  show ?thesis
    by (simp add: as_resolved_def resolve_def dangerous_A_def dangerous_B_def
        random_random_def raw_stream_def payoff_defs)
qed

text \<open>
  The whole contest of that strategy against Hawk returns normally after ten rounds, the
  illegal mover having taken ten scratches.
\<close>

theorem illegal_move_counterexample:
  "play_contest \<lparr>reset = (\<lambda>s. s), choose_move = (\<lambda>s my opp rs k. Inr (''X'', s, k))\<rparr> ()
     class_G HawkG (raw_stream []) 0 = Inr ((- 20, 0), 10)"
  by (simp add: contest_defs class_G_def payoff_defs upt_conv_Cons)

section \<open>The strategies under the calling discipline\<close>


lemma drive_length: "length (drive f s my opp os rs k) = length os"
  by (induction os arbitrary: s my opp k) (auto split: prod.splits)

lemma mouse_drive_agree:
  assumes "dO \<longrightarrow> ''D'' \<in> set opp"
    and "''D'' \<in> set opp \<longrightarrow> dO \<or> last opp = ''D''"
    and "dG \<longrightarrow> ''D'' \<in> set opp"
  shows "drive choose_move_O (MouseO dO) my opp os rs k
       = drive choose_move_G (MouseG dG) my opp os rs' k'"
  using assms
proof (induction os arbitrary: dO dG my opp k k')
  case Nil
  show ?case by simp
next
  case (Cons x os)
  let ?d = "''D'' \<in> set opp"
  have li: "opp \<noteq> [] \<Longrightarrow> last opp = ''D'' \<Longrightarrow> ''D'' \<in> set opp"
    by (metis last_in_set)
  have o: "choose_move_O (MouseO dO) my opp rs k
    = (if \<not> ?d \<and> length my < MAX_MOVES then ''C'' else ''R'', MouseO ?d, k)"
    using Cons.prems li by (cases "opp = []") (auto simp add: Let_def)
  have g: "choose_move_G (MouseG dG) my opp rs' k'
    = (if \<not> ?d \<and> length my < MAX_MOVES then ''C'' else ''R'', MouseG ?d, k')"
    using Cons.prems by (auto simp add: Let_def)
  have "drive choose_move_O (MouseO ?d) (my @ [m]) (opp @ [x]) os rs k
      = drive choose_move_G (MouseG ?d) (my @ [m]) (opp @ [x]) os rs' k'" for m
    by (rule Cons.IH) auto
  then show ?case
    by (simp add: o g del: choose_move_G.simps choose_move_O.simps)
qed

text \<open>
  C10. From \<^verbatim>\<open>reset\<close>, called once per round on histories that grow by one move per
  side per round, the Mouse of \<^verbatim>\<open>OriginalSimulation.py\<close> (flag set when the opponent's
  last move is \<^verbatim>\<open>'D'\<close>) and the Mouse of \<^verbatim>\<open>GenerationalResult.py\<close> (flag set when
  \<^verbatim>\<open>'D'\<close> is anywhere in the opponent's history) return the same move in every round,
  against every sequence of opponent moves.
\<close>

theorem mouse_versions_agree:
  "drive choose_move_O (reset_O (MouseO dO)) [] [] os rs k
     = drive choose_move_G (reset_G (MouseG dG)) [] [] os rs' k'"
  by (simp add: mouse_drive_agree)

lemma prober_G_probed:
  "i < length os \<Longrightarrow> c + i < MAX_MOVES \<Longrightarrow> opp \<noteq> [] \<Longrightarrow>
     drive choose_move_G (ProberRetaliatorG c True) my opp os rs k ! i
       = (if last (opp @ take i os) = ''D'' then ''C'' else ''D'')"
proof (induction os arbitrary: c my opp i k)
  case Nil
  then show ?case by simp
next
  case (Cons x os)
  let ?m = "if last opp = ''D'' then ''C'' else ''D''"
  have step: "choose_move_G (ProberRetaliatorG c True) my opp rs k
      = (?m, ProberRetaliatorG (Suc c) True, k)"
    using Cons.prems by (simp add: prober_follow_G_def)
  show ?case
  proof (cases i)
    case 0
    then show ?thesis by (simp add: step del: choose_move_G.simps choose_move_O.simps)
  next
    case (Suc j)
    with Cons.prems have "j < length os" "Suc c + j < MAX_MOVES" "opp @ [x] \<noteq> []" by simp_all
    from Cons.IH [OF this, of "my @ [?m]" k]
    show ?thesis by (simp add: step Suc del: choose_move_G.simps choose_move_O.simps)
  qed
qed

lemma prober_O_probed:
  "i < length os \<Longrightarrow> c + i < MAX_MOVES \<Longrightarrow> opp \<noteq> [] \<Longrightarrow>
     drive choose_move_O (ProberRetaliatorO s c True) my opp os rs k ! i
       = (if s = ''D'' \<and> ''D'' \<notin> set (last opp # take i os) then ''D'' else ''C'')"
proof (induction os arbitrary: s c my opp i k)
  case Nil
  then show ?case by simp
next
  case (Cons x os)
  let ?m = "if s = ''D'' \<and> last opp \<noteq> ''D'' then ''D'' else ''C''"
  have step: "choose_move_O (ProberRetaliatorO s c True) my opp rs k
      = (?m, ProberRetaliatorO ?m (Suc c) True, k)"
    using Cons.prems by (simp add: prober_follow_O_def Let_def)
  show ?case
  proof (cases i)
    case 0
    then show ?thesis by (auto simp add: step simp del: choose_move_G.simps choose_move_O.simps)
  next
    case (Suc j)
    with Cons.prems have "j < length os" "Suc c + j < MAX_MOVES" "opp @ [x] \<noteq> []" by simp_all
    from Cons.IH [OF this, of ?m "my @ [?m]" k]
    show ?thesis by (simp add: step Suc del: choose_move_G.simps choose_move_O.simps)
  qed
qed

text \<open>
  C8, as the code has it. Let Prober-Retaliator probe on its first move, and let \<open>i\<close> be
  a later round within the round cap. In \<^verbatim>\<open>GenerationalResult.py\<close> it plays \<^verbatim>\<open>'C'\<close> when
  the opponent's most recent move was \<^verbatim>\<open>'D'\<close> and \<^verbatim>\<open>'D'\<close> otherwise. In
  \<^verbatim>\<open>OriginalSimulation.py\<close> it plays \<^verbatim>\<open>'D'\<close> as long as the opponent has not played
  \<^verbatim>\<open>'D'\<close> in any round so far, and \<^verbatim>\<open>'C'\<close> in every round after the opponent's first
  \<^verbatim>\<open>'D'\<close>.
\<close>

theorem prober_after_probe:
  assumes "fst (random_random rs k) < PROBE_PROB" and "0 < i" and "i < MAX_MOVES"
    and "i < length os"
  shows "drive choose_move_G (reset_G (ProberRetaliatorG c h)) [] [] os rs k ! 0 = ''D''
     \<and> drive choose_move_G (reset_G (ProberRetaliatorG c h)) [] [] os rs k ! i
         = (if os ! (i - 1) = ''D'' then ''C'' else ''D'')
     \<and> drive choose_move_O (reset_O (ProberRetaliatorO s c h)) [] [] os rs k ! 0 = ''D''
     \<and> drive choose_move_O (reset_O (ProberRetaliatorO s c h)) [] [] os rs k ! i
         = (if ''D'' \<in> set (take i os) then ''C'' else ''D'')"
proof -
  from assms obtain x os' j where os: "os = x # os'" and i: "i = Suc j"
    by (cases os; cases i) auto
  have j: "j < length os'" "1 + j < MAX_MOVES" "[x] \<noteq> []"
    using assms os i by simp_all
  have "take (Suc j) (x # os') = take j (x # os') @ [(x # os') ! j]"
    using j(1) by (intro take_Suc_conv_app_nth) simp
  then have l: "last (x # take j os') = (x # os') ! j"
    by (metis last_snoc take_Suc_Cons)
  obtain u k' where d: "random_random rs k = (u, k')" by (cases "random_random rs k")
  with assms(1) have u: "u < PROBE_PROB" by simp
  have pos: "0 < MAX_MOVES" using assms by simp
  have g: "choose_move_G (ProberRetaliatorG 0 False) [] [] rs k
      = (''D'', ProberRetaliatorG 1 True, k')"
    using pos d u by simp
  have o: "choose_move_O (ProberRetaliatorO ''C'' 0 False) [] [] rs k
      = (''D'', ProberRetaliatorO ''D'' 1 True, k')"
    using pos d u by simp
  show ?thesis
    using prober_G_probed [OF j, of "[''D'']" rs k'] prober_O_probed [OF j, of "''D''" "[''D'']" rs k'] l
    by (simp add: os i g o del: choose_move_G.simps choose_move_O.simps)
qed

theorem prober_after_probe_witness:
  "drive choose_move_G (reset_G (ProberRetaliatorG 0 False)) [] []
     [''D'', ''C'', ''C''] (raw_stream [0]) 0 ! 2 = ''D''
   \<and> drive choose_move_O (reset_O (ProberRetaliatorO ''C'' 0 False)) [] []
     [''D'', ''C'', ''C''] (raw_stream [0]) 0 ! 2 = ''C''"
proof -
  have p: "fst (random_random (raw_stream [0]) 0) < PROBE_PROB"
    by (simp add: random_random_def raw_stream_def PROBE_PROB_def)
  have i: "(0::nat) < 2" "(2::nat) < MAX_MOVES" "(2::nat) < length [''D'', ''C'', ''C'']"
    by (simp_all add: MAX_MOVES_def)
  from prober_after_probe [OF p i, of 0 False "''C''"]
  show ?thesis by simp
qed

text \<open>
  The Prober-Retaliator of \<^verbatim>\<open>OriginalSimulation.py\<close> probes in round 0, meets \<^verbatim>\<open>'D'\<close>
  in round 0 and \<^verbatim>\<open>'C'\<close> in round 1: in round 2 the opponent's most recent move is not
  \<^verbatim>\<open>'D'\<close>, and it plays \<^verbatim>\<open>'C'\<close>.
\<close>

theorem prober_original_counterexample:
  "drive choose_move_O (reset_O (ProberRetaliatorO ''C'' 0 False)) [] []
     [''D'', ''C'', ''C''] (raw_stream [0]) 0 = [''D'', ''C'', ''C'']"
  by (simp add: prober_follow_O_def random_random_def raw_stream_def PROBE_PROB_def MAX_MOVES_def Let_def)

section \<open>Properties of the evolutionary engine\<close>

lemmas random_defs = random_random_def randbelow_def random_randrange_def random_choices_def
  bisect_def random_shuffle_def raw_stream_def unrounded_def

subsection \<open>The sampling phase\<close>

declare fill.simps [simp del] trim.simps [simp del]

lemma nat_py_int: "nat (py_int x) = nat \<lfloor>x\<rfloor>"
proof (cases "0 \<le> x")
  case True
  then show ?thesis by (simp add: py_int_def)
next
  case False
  then have "\<lceil>x\<rceil> \<le> 0" "\<lfloor>x\<rfloor> \<le> 0" by (simp_all add: ceiling_le_zero floor_le_zero)
  with False show ?thesis by (simp add: py_int_def)
qed

lemma instantiate_floor_instances:
  "instantiate fl population n individuals = individuals @ floor_instances fl population n"
  by (induction population arbitrary: individuals)
     (auto simp add: floor_instances_def nat_py_int)

lemma trim_take: "trim n individuals = take n individuals"
proof (induction n individuals rule: trim.induct)
  case (1 n individuals)
  show ?case
  proof (cases "length individuals > n")
    case True
    then have "trim n individuals = take n (butlast individuals)"
      using "1.IH" by (simp add: trim.simps [of n individuals])
    also have "\<dots> = take n individuals"
      using True by (simp add: take_butlast)
    finally show ?thesis .
  next
    case False
    then show ?thesis by (simp add: trim.simps [of n individuals])
  qed
qed

lemma length_accumulate_from: "length (accumulate_from fl acc ws) = length ws"
  by (induction ws arbitrary: acc) auto

lemma length_accumulate: "length (accumulate fl ws) = length ws"
  by (cases ws) (simp_all add: length_accumulate_from)

lemma length_cum_weights: "length (cum_weights fl population) = length population"
  by (simp add: cum_weights_def length_accumulate)

lemma random_random_unit: "0 \<le> fst (random_random rs k) \<and> fst (random_random rs k) < 1"
  by (simp add: random_random_def)








lemma random_choices_drawn:
  assumes "length population = length strategies" and "population \<noteq> []"
    and "0 < last (cum_weights fl population)"
  shows "random_choices fl strategies (map snd population) rs k
       = Inr (strategies ! drawn_index fl population rs k, Suc k)"
proof -
  have "cum_weights fl population \<noteq> []"
    using assms(2) length_cum_weights [of fl population] by auto
  then show ?thesis
    using assms length_cum_weights [of fl population]
    by (simp add: random_choices_def Let_def drawn_index_def looked_up_def random_random_def
        cum_weights_def)
qed

lemma fill_draws:
  assumes "length population = length strategies" and "population \<noteq> []"
    and "0 < last (cum_weights fl population)"
  shows "fill fl strategies population n individuals rs k =
     Inr (individuals @
            map (\<lambda>j. new (strategies ! drawn_index fl population rs (k + j)))
              [0..<n - length individuals],
          k + (n - length individuals))"
proof (induction "n - length individuals" arbitrary: individuals k)
  case 0
  then show ?case by (simp add: fill.simps [of _ _ _ n individuals])
next
  case (Suc d)
  let ?c = "new (strategies ! drawn_index fl population rs k)"
  let ?f = "\<lambda>j. new (strategies ! drawn_index fl population rs (k + j))"
  from Suc.hyps(2) have lt: "length individuals < n" and d: "d = n - length (individuals @ [?c])"
    by simp_all
  have "fill fl strategies population n individuals rs k
      = fill fl strategies population n (individuals @ [?c]) rs (Suc k)"
    using lt by (simp add: fill.simps [of _ _ _ n individuals] random_choices_drawn [OF assms])
  also have "\<dots> = Inr ((individuals @ [?c]) @
        map (\<lambda>j. new (strategies ! drawn_index fl population rs (Suc k + j))) [0..<d], Suc k + d)"
    using Suc.hyps(1) [OF d] d by simp
  also have "map (\<lambda>j. new (strategies ! drawn_index fl population rs (Suc k + j))) [0..<d]
      = map ?f (map Suc [0..<d])"
    by simp
  also have "map Suc [0..<d] = [Suc 0..<Suc d]"
    by (rule map_Suc_upt)
  finally have "fill fl strategies population n individuals rs k
      = Inr (individuals @ (?f 0 # map ?f [Suc 0..<Suc d]), Suc k + d)"
    by simp
  moreover have "[0..<Suc d] = 0 # [Suc 0..<Suc d]"
    by (rule upt_conv_Cons) simp
  ultimately have "fill fl strategies population n individuals rs k
      = Inr (individuals @ map ?f [0..<Suc d], Suc k + d)"
    by (simp only: list.map)
  then show ?case
    using Suc.hyps(2) by simp
qed

lemma sampling_result:
  assumes "length population = length strategies" and "population \<noteq> []"
    and "0 < last (cum_weights fl population)"
  shows "sampling fl strategies population n rs k =
           Inr (take n (floor_instances fl population n) @
                map (\<lambda>j. new (strategies ! drawn_index fl population rs (k + j)))
                  [0..<n - length (floor_instances fl population n)],
                k + (n - length (floor_instances fl population n)))"
  by (simp add: sampling_def instantiate_floor_instances fill_draws [OF assms] trim_take)

text \<open>
  The counts follow the double product, not the exact one: when the double product of
  the Mouse frequency and 50 is the double just below 29 (as it is for \<^verbatim>\<open>0.58 * 50\<close>),
  the first loop makes 28 Mouse, whatever the exact product is.
\<close>

lemma floor_instances_rounded_product:
  assumes "fmul fl a 50 = 29 - 1 / 2 ^ 48" and "fmul fl b 50 = 21"
  shows "floor_instances fl [(Mouse, a), (Hawk, b)] 50
       = replicate 28 (MouseG False) @ replicate 21 HawkG"
proof -
  have "\<lfloor>29 - 1 / 2 ^ 48 :: real\<rfloor> = 28"
    by (simp add: floor_eq_iff)
  then have a: "nat \<lfloor>fmul fl a 50\<rfloor> = 28"
    by (simp only: assms(1))
  have b: "nat \<lfloor>fmul fl b 50\<rfloor> = 21"
    by (simp add: assms(2))
  show ?thesis
    by (simp add: floor_instances_def a b)
qed



subsection \<open>The contest phase\<close>

lemma round_body_G:
  "\<exists>a b sa sb k2. round_body class_G class_G rs moves st =
     Inr (resolve a b moves rs (st\<lparr>A_state := sa, B_state := sb,
            A_history := A_history st @ [a], B_history := B_history st @ [b], draws := k2\<rparr>))"
proof -
  obtain a sa k1 where a: "choose_move_G (A_state st) (A_history st) (B_history st) rs (draws st)
      = (a, sa, k1)"
    by (cases "choose_move_G (A_state st) (A_history st) (B_history st) rs (draws st)")
  obtain b sb k2 where b: "choose_move_G (B_state st) (B_history st) (A_history st) rs k1
      = (b, sb, k2)"
    by (cases "choose_move_G (B_state st) (B_history st) (A_history st) rs k1")
  show ?thesis
    using a b by (simp add: round_body_def class_G_def) blast
qed

lemma contest_rounds_G_returns: "\<not> isl (contest_rounds class_G class_G rs ms st)"
proof (induction ms arbitrary: st)
  case Nil
  show ?case by simp
next
  case (Cons m ms)
  obtain stp where r: "round_body class_G class_G rs m st = Inr stp"
    using round_body_G [of rs m st] by blast
  show ?case
    using Cons.IH by (cases stp) (simp_all add: r)
qed

lemma play_contest_G_returns:
  "\<exists>scoreA scoreB k'. play_contest class_G a class_G b rs k = Inr ((scoreA, scoreB), k')"
  using contest_rounds_G_returns [of rs "[0..<MAX_MOVES]" "contest_start class_G a class_G b k"]
  by (cases "play_contest class_G a class_G b rs k") (auto simp add: play_contest_def)

lemma contest_phase_last_pair_missing:
  "length individuals = 2 * m + 1 \<Longrightarrow> length payoffs = 2 * m + 1 \<Longrightarrow> a \<le> m \<Longrightarrow>
     contest_phase (map (\<lambda>j. 2 * j) [a..<Suc m]) individuals payoffs rs k = Inl IndexError"
proof (induction "m - a" arbitrary: a payoffs k)
  case 0
  then have "a = m" by simp
  then show ?case using "0.prems" by (simp add: upt_conv_Cons)
next
  case (Suc d)
  then have lt: "a < m" by simp
  obtain scoreA scoreB k' where
    p: "play_contest class_G (individuals ! (2 * a)) class_G (individuals ! (2 * a + 1)) rs k
      = Inr ((scoreA, scoreB), k')"
    using play_contest_G_returns by blast
  let ?payoffs1 = "payoffs[2 * a := payoffs ! (2 * a) + scoreA]"
  let ?payoffs2 = "?payoffs1[2 * a + 1 := ?payoffs1 ! (2 * a + 1) + scoreB]"
  have "contest_phase (map (\<lambda>j. 2 * j) [Suc a..<Suc m]) individuals ?payoffs2 rs k'
      = Inl IndexError"
    using Suc.hyps(2) Suc.prems lt by (intro Suc.hyps(1)) simp_all
  moreover have "[a..<Suc m] = a # [Suc a..<Suc m]"
    using lt by (simp add: upt_conv_Cons)
  ultimately show ?case
    using Suc.prems lt p by (simp add: Let_def)
qed

lemma contest_phase_odd:
  assumes "odd population_size" and "length individuals = population_size"
  shows "contest_phase (range_step2 population_size) individuals
           (replicate population_size 0) rs k = Inl IndexError"
proof -
  from assms(1) obtain m where m: "population_size = 2 * m + 1"
    by (auto elim: oddE)
  have "(population_size + 1) div 2 = Suc m" using m by simp
  then show ?thesis
    using contest_phase_last_pair_missing [of individuals m "replicate population_size 0" 0 rs k]
      assms(2) m
    by (simp add: range_step2_def)
qed

lemma contest_phase_pairs_complete:
  "length individuals = 2 * m \<Longrightarrow> length payoffs = 2 * m \<Longrightarrow>
     \<exists>payoffs' k'. contest_phase (map (\<lambda>j. 2 * j) [a..<m]) individuals payoffs rs k
        = Inr (payoffs', k')"
proof (induction "m - a" arbitrary: a payoffs k)
  case 0
  then show ?case by simp
next
  case (Suc d)
  then have lt: "a < m" by simp
  obtain scoreA scoreB k' where
    p: "play_contest class_G (individuals ! (2 * a)) class_G (individuals ! (2 * a + 1)) rs k
      = Inr ((scoreA, scoreB), k')"
    using play_contest_G_returns by blast
  let ?payoffs1 = "payoffs[2 * a := payoffs ! (2 * a) + scoreA]"
  let ?payoffs2 = "?payoffs1[2 * a + 1 := ?payoffs1 ! (2 * a + 1) + scoreB]"
  have "\<exists>payoffs' k''. contest_phase (map (\<lambda>j. 2 * j) [Suc a..<m]) individuals ?payoffs2 rs k'
      = Inr (payoffs', k'')"
    using Suc.hyps(2) Suc.prems by (intro Suc.hyps(1)) simp_all
  moreover have "[a..<m] = a # [Suc a..<m]"
    using lt by (simp add: upt_conv_Cons)
  ultimately show ?case
    using Suc.prems lt p by (simp add: Let_def)
qed

lemma length_shuffle_loop:
  "length (fst (shuffle_loop is x rs k)) = length x"
  by (induction "is" arbitrary: x k) (auto simp add: randbelow_def)

lemma length_random_shuffle: "length (fst (random_shuffle x rs k)) = length x"
  by (simp add: random_shuffle_def length_shuffle_loop)

lemma fill_length:
  "fill fl strategies population n individuals rs k = Inr (individuals', k') \<Longrightarrow>
     n \<le> length individuals'"
proof (induction fl strategies population n individuals rs k rule: fill.induct)
  case (1 fl strategies population n individuals rs k)
  show ?case
  proof (cases "length individuals < n")
    case True
    with "1.prems" obtain c k1 where
      c: "random_choices fl strategies (map snd population) rs k = Inr (c, k1)"
      and f: "fill fl strategies population n (individuals @ [new c]) rs k1
        = Inr (individuals', k')"
      by (auto simp add: fill.simps [of _ _ _ n individuals] split: sum.splits)
    from "1.IH" [OF True c refl f] show ?thesis .
  next
    case False
    with "1.prems" show ?thesis by (simp add: fill.simps [of _ _ _ n individuals])
  qed
qed

lemma sampling_length:
  "sampling fl strategies population n rs k = Inr (individuals, k') \<Longrightarrow>
     length individuals = n"
  by (auto simp add: sampling_def trim_take split: sum.splits dest: fill_length)

lemma generation_odd_raises:
  assumes "odd n"
  shows "generation fl strategies population n rs k =
     (case sampling fl strategies population n rs k of
        Inl e \<Rightarrow> Inl e
      | Inr sampled \<Rightarrow> Inl IndexError)"
proof (cases "sampling fl strategies population n rs k")
  case (Inl e)
  then show ?thesis by (simp add: generation_def)
next
  case (Inr r)
  obtain sampled k1 where r: "r = (sampled, k1)" by (cases r)
  obtain individuals k2 where sh: "random_shuffle sampled rs k1 = (individuals, k2)"
    by (cases "random_shuffle sampled rs k1")
  have "length sampled = n" using Inr r by (auto dest: sampling_length)
  then have "length individuals = n"
    using length_random_shuffle [of sampled rs k1] sh by simp
  then have "contest_phase (range_step2 n) individuals (replicate n 0) rs k2 = Inl IndexError"
    using assms contest_phase_odd by simp
  then show ?thesis
    using Inr r sh by (simp add: generation_def)
qed

text \<open>
  C9. For every odd \<open>population_size\<close>, on a list of that many individuals (as the sampling
  phase and the shuffle produce it) the contest phase has no fallback for the leftover
  individual: after the complete pairs it reads \<^verbatim>\<open>individuals[population_size]\<close> and
  raises \<^verbatim>\<open>IndexError\<close>. So a generation with an odd \<open>population_size\<close> raises: in
  the sampling phase if that fails, in the contest phase otherwise.
\<close>

theorem odd_population_IndexError:
  assumes "odd population_size" and "length individuals = population_size"
  shows "contest_phase (range_step2 population_size) individuals
           (replicate population_size 0) rs k = Inl IndexError
     \<and> generation fl strategies population population_size rs' k' =
         (case sampling fl strategies population population_size rs' k' of
            Inl e \<Rightarrow> Inl e
          | Inr sampled \<Rightarrow> Inl IndexError)"
  using contest_phase_odd [OF assms] generation_odd_raises [OF assms(1)] by simp

text \<open>
  Three individuals: Mouse and Hawk play, and the second Hawk has no opponent.
\<close>

theorem odd_population_witness:
  "contest_phase (range_step2 3) [MouseG False, HawkG, HawkG] (replicate 3 0) (raw_stream []) 0
     = Inl IndexError
   \<and> generation unrounded [Mouse, Hawk] [(Mouse, 1 / 2), (Hawk, 1 / 2)] 3 (raw_stream []) 0
     = Inl IndexError"
proof -
  have o: "odd (3::nat)" by simp
  have l: "length [MouseG False, HawkG, HawkG] = 3" by simp
  have s: "sampling unrounded [Mouse, Hawk] [(Mouse, 1 / 2), (Hawk, 1 / 2)] 3 (raw_stream []) 0
      = Inr ([MouseG False, HawkG, HawkG], 1)"
    by (simp add: sampling_def py_int_def fill.simps trim.simps random_defs)
  from odd_population_IndexError [OF o l, of "raw_stream []" 0 unrounded "[Mouse, Hawk]"
      "[(Mouse, 1 / 2), (Hawk, 1 / 2)]" "raw_stream []" 0]
  show ?thesis by (simp add: s)
qed

subsection \<open>The mutation step\<close>

lemma hawk_index_less:
  "Hawk \<in> fst ` set population \<Longrightarrow> hawk_index population < length population"
  unfolding hawk_index_def
  by (induction population) auto

lemma hawk_index_is_hawk:
  "Hawk \<in> fst ` set population \<Longrightarrow> fst (population ! hawk_index population) = Hawk"
  unfolding hawk_index_def
  by (induction population) auto

lemma give_to_hawk_update:
  "Hawk \<in> fst ` set population \<Longrightarrow>
     give_to_hawk population amount =
       population[hawk_index population :=
         (Hawk, snd (population ! hawk_index population) + amount)]"
  unfolding hawk_index_def
  by (induction population) auto

lemma hawk_index_update:
  "i < length population \<Longrightarrow> fst (population ! i) \<noteq> Hawk \<Longrightarrow> s \<noteq> Hawk \<Longrightarrow>
     hawk_index (population[i := (s, f)]) = hawk_index population"
  unfolding hawk_index_def
proof (induction population arbitrary: i)
  case Nil
  then show ?case by simp
next
  case (Cons p population)
  then show ?case by (cases i) auto
qed

lemma sum_list_update_real:
  fixes xs :: "real list"
  shows "i < length xs \<Longrightarrow> sum_list (xs[i := v]) = sum_list xs - xs ! i + v"
proof (induction xs arbitrary: i)
  case Nil
  then show ?case by simp
next
  case (Cons x xs)
  then show ?case by (cases i) auto
qed

lemma mutation_amount_bounds:
  "0 < freq \<Longrightarrow> 0 < mutation_amount freq \<and> mutation_amount freq \<le> 1 / 20
     \<and> mutation_amount freq < freq"
  by (auto simp add: mutation_amount_def min_def)

lemma mutation_transfer:
  assumes "fst (random_random rs k) < MUTATION_RATE"
    and "Hawk \<in> fst ` set population"
    and "i = rs (Suc k) mod length population"
    and "population ! i = (s, freq)" and "s \<noteq> Hawk" and "0 < freq"
    and "h = hawk_index population"
  shows "mutation population rs k =
           Inr (population[i := (s, freq - mutation_amount freq),
                           h := (Hawk, snd (population ! h) + mutation_amount freq)], k + 2)
     \<and> h < length population \<and> fst (population ! h) = Hawk \<and> h \<noteq> i
     \<and> 0 < mutation_amount freq \<and> mutation_amount freq \<le> 1 / 20
     \<and> 0 < freq - mutation_amount freq
     \<and> sum_list (map snd (population[i := (s, freq - mutation_amount freq),
                           h := (Hawk, snd (population ! h) + mutation_amount freq)]))
         = sum_list (map snd population)"
proof -
  let ?a = "mutation_amount freq"
  let ?p1 = "population[i := (s, freq - ?a)]"
  from assms(2) have ne: "population \<noteq> []" by auto
  then have i: "i < length population" using assms(3) by simp
  have hl: "h < length population" and hh: "fst (population ! h) = Hawk"
    using assms(2,7) hawk_index_less hawk_index_is_hawk by simp_all
  have hi: "h \<noteq> i" using hh assms(4,5) by auto
  have h1: "hawk_index ?p1 = h"
    using hawk_index_update [OF i, of s] assms(4,5,7) by simp
  have in1: "Hawk \<in> fst ` set ?p1"
    using hl hh hi by (metis fst_conv image_eqI length_list_update nth_list_update_neq nth_mem)
  have g: "give_to_hawk ?p1 ?a = ?p1[h := (Hawk, snd (population ! h) + ?a)]"
    using give_to_hawk_update [OF in1, of ?a] h1 hi by simp
  have m: "mutation population rs k = Inr (?p1[h := (Hawk, snd (population ! h) + ?a)], k + 2)"
    using assms(1,3,4,5) ne g
    by (simp add: mutation_def random_randrange_def randbelow_def random_random_def)
  have b: "0 < ?a" "?a \<le> 1 / 20" "?a < freq"
    using mutation_amount_bounds [OF assms(6)] by simp_all
  have "sum_list (map snd (?p1[h := (Hawk, snd (population ! h) + ?a)]))
      = sum_list ((map snd population)[i := freq - ?a, h := snd (population ! h) + ?a])"
    by (simp add: map_update)
  also have "\<dots> = sum_list (map snd population)"
    using i hl hi assms(4) by (simp add: sum_list_update_real)
  finally show ?thesis
    using m hl hh hi b by simp
qed

lemma fitness_pos: "0 < fitness agg s"
  by (simp add: fitness_def Let_def max_def)

lemma total_fitness_pos: "strategies \<noteq> [] \<Longrightarrow> 0 < sum_list (map (fitness agg) strategies)"
proof (induction strategies)
  case Nil
  then show ?case by simp
next
  case (Cons s strategies)
  have "0 \<le> sum_list (map (fitness agg) strategies)"
    by (rule sum_list_nonneg) (auto simp add: less_imp_le fitness_pos)
  then show ?case using fitness_pos [of agg s] by simp
qed

lemma normalize_eq:
  "normalize strategies agg =
     map (\<lambda>s. (s, fitness agg s / sum_list (map (fitness agg) strategies))) strategies"
  by (simp add: normalize_def Let_def comp_def)

lemma normalize_distribution:
  assumes "strategies \<noteq> []"
  shows "(\<forall>p\<in>set (normalize strategies agg). 0 < snd p)
     \<and> sum_list (map snd (normalize strategies agg)) = 1
     \<and> map fst (normalize strategies agg) = strategies"
proof -
  let ?t = "sum_list (map (fitness agg) strategies)"
  have t: "0 < ?t" using assms by (rule total_fitness_pos)
  have "sum_list (map snd (normalize strategies agg))
      = sum_list (map (\<lambda>s. fitness agg s * inverse ?t) strategies)"
    by (simp add: normalize_eq comp_def divide_inverse)
  also have "\<dots> = ?t * inverse ?t"
    by (simp add: sum_list_mult_const)
  also have "\<dots> = 1" using t by simp
  finally have s: "sum_list (map snd (normalize strategies agg)) = 1" .
  have p: "\<forall>p\<in>set (normalize strategies agg). 0 < snd p"
    using t by (auto simp add: normalize_eq fitness_pos)
  have f: "map fst (normalize strategies agg) = strategies"
    by (simp add: normalize_eq comp_def)
  show ?thesis using s p f by simp
qed

text \<open>A triggered step that picks a Hawk entry returns the distribution as it is.\<close>

lemma mutation_hawk_picked:
  assumes "random_random rs k = (u, k1)" and "u < MUTATION_RATE"
    and "random_randrange (length population) rs k1 = Inr (i, k2)"
    and "fst (population ! i) = Hawk"
  shows "mutation population rs k = Inr (population, k2)"
  using assms by (auto simp add: mutation_def split: prod.splits)

text \<open>
  C6, as the code has it. The mutation step receives the normalized distribution. When it
  triggers, the position it picks is \<^verbatim>\<open>random.randrange(len(population))\<close>: a position
  of any class, Hawk included. If the picked class is Hawk, the distribution is left
  unchanged. If the picked class is not Hawk and Hawk is among the strategies, then the
  picked frequency (which is positive) strictly decreases and the frequency of Hawk (of
  its first entry) strictly increases by the same amount \<open>min (freq * 0.1) 0.05\<close>, which
  is at most 0.05 and less than the picked frequency; the other frequencies and the total
  are unchanged.
\<close>

theorem mutation_transfers_to_hawk:
  assumes "population = normalize strategies agg"
    and "random_random rs k = (u, k1)" and "u < MUTATION_RATE"
    and "random_randrange (length population) rs k1 = Inr (i, k2)"
    and "population ! i = (s, freq)"
    and "h = hawk_index population"
  shows "i < length population
     \<and> (s = Hawk \<longrightarrow> mutation population rs k = Inr (population, k2))
     \<and> (s \<noteq> Hawk \<and> Hawk \<in> set strategies \<longrightarrow>
          mutation population rs k =
            Inr (population[i := (s, freq - mutation_amount freq),
                            h := (Hawk, snd (population ! h) + mutation_amount freq)], k2)
          \<and> h < length population \<and> fst (population ! h) = Hawk \<and> h \<noteq> i
          \<and> 0 < mutation_amount freq \<and> mutation_amount freq \<le> 1 / 20
          \<and> 0 < freq - mutation_amount freq
          \<and> sum_list (map snd (population[i := (s, freq - mutation_amount freq),
                            h := (Hawk, snd (population ! h) + mutation_amount freq)]))
              = sum_list (map snd population))"
proof -
  have pne: "population \<noteq> []"
    using assms(4) by (auto simp add: random_randrange_def split: if_splits)
  have k1: "k1 = Suc k" and u: "fst (random_random rs k) < MUTATION_RATE"
    using assms(2,3) by (auto simp add: random_random_def)
  have i: "i = rs (Suc k) mod length population" and k2: "k2 = k + 2"
    using assms(4) pne k1 by (auto simp add: random_randrange_def randbelow_def)
  have il: "i < length population" using i pne by simp
  have hawk: "s = Hawk \<longrightarrow> mutation population rs k = Inr (population, k2)"
    using mutation_hawk_picked [OF assms(2,3,4)] assms(5) by simp
  have other: "mutation population rs k =
            Inr (population[i := (s, freq - mutation_amount freq),
                            h := (Hawk, snd (population ! h) + mutation_amount freq)], k2)
          \<and> h < length population \<and> fst (population ! h) = Hawk \<and> h \<noteq> i
          \<and> 0 < mutation_amount freq \<and> mutation_amount freq \<le> 1 / 20
          \<and> 0 < freq - mutation_amount freq
          \<and> sum_list (map snd (population[i := (s, freq - mutation_amount freq),
                            h := (Hawk, snd (population ! h) + mutation_amount freq)]))
              = sum_list (map snd population)"
    if s: "s \<noteq> Hawk" and hs: "Hawk \<in> set strategies"
  proof -
    from hs have ne: "strategies \<noteq> []" by auto
    note d = normalize_distribution [OF ne, of agg]
    have "fst ` set population = set strategies"
      using d assms(1) by (metis set_map)
    then have hk: "Hawk \<in> fst ` set population" using hs by simp
    have f: "0 < freq"
      using d assms(1,5) il by (metis nth_mem snd_conv)
    from mutation_transfer [OF u hk i assms(5) s f assms(6)] k2
    show ?thesis by simp
  qed
  show ?thesis using il hawk other by blast
qed

text \<open>
  Mouse and Hawk at \<open>1/2\<close> each, and the step triggers. When it picks Mouse, 0.05 goes
  to Hawk; when it picks Hawk, nothing changes.
\<close>

theorem mutation_witness:
  "mutation [(Mouse, 1 / 2), (Hawk, 1 / 2)] (raw_stream [0, 0]) 0
     = Inr ([(Mouse, 9 / 20), (Hawk, 11 / 20)], 2)
   \<and> mutation [(Mouse, 1 / 2), (Hawk, 1 / 2)] (raw_stream [0, 1]) 0
     = Inr ([(Mouse, 1 / 2), (Hawk, 1 / 2)], 2)"
proof -
  let ?population = "[(Mouse, 1 / 2 :: real), (Hawk, 1 / 2)]"
  have n: "?population = normalize [Mouse, Hawk] (\<lambda>s. 0, \<lambda>s. 0)"
    by (simp add: normalize_def fitness_def)
  have t: "(0::real) < MUTATION_RATE" by (simp add: MUTATION_RATE_def)
  have h: "1 = hawk_index ?population" by (simp add: hawk_index_def)
  have r0: "random_random (raw_stream [0, 0]) 0 = (0, 1)"
    by (simp add: random_random_def raw_stream_def)
  have i0: "random_randrange (length ?population) (raw_stream [0, 0]) 1 = Inr (0, 2)"
    by (simp add: random_randrange_def randbelow_def raw_stream_def)
  have p0: "?population ! 0 = (Mouse, 1 / 2)" by simp
  have r1: "random_random (raw_stream [0, 1]) 0 = (0, 1)"
    by (simp add: random_random_def raw_stream_def)
  have i1: "random_randrange (length ?population) (raw_stream [0, 1]) 1 = Inr (1, 2)"
    by (simp add: random_randrange_def randbelow_def raw_stream_def)
  have p1: "?population ! 1 = (Hawk, 1 / 2)" by simp
  from mutation_transfers_to_hawk [OF n r0 t i0 p0 h]
  have a: "mutation ?population (raw_stream [0, 0]) 0
      = Inr ([(Mouse, 9 / 20), (Hawk, 11 / 20)], 2)"
    by (simp add: mutation_amount_def)
  from mutation_transfers_to_hawk [OF n r1 t i1 p1 h]
  have b: "mutation ?population (raw_stream [0, 1]) 0 = Inr (?population, 2)"
    by simp
  show ?thesis using a b by simp
qed

text \<open>
  A triggered mutation step (\<^verbatim>\<open>random() = 0.0\<close>) whose \<^verbatim>\<open>randrange(2)\<close> is 1 picks Hawk,
  and no frequency changes.
\<close>

theorem mutation_picks_hawk_counterexample:
  "fst (random_random (raw_stream [0, 1]) 0) < MUTATION_RATE
   \<and> mutation [(Mouse, 1 / 2), (Hawk, 1 / 2)] (raw_stream [0, 1]) 0
       = Inr ([(Mouse, 1 / 2), (Hawk, 1 / 2)], 2)"
  by (simp add: random_defs mutation_def MUTATION_RATE_def)

text \<open>
  With Hawk in the distribution, the mutation step keeps the frequencies positive and
  their total unchanged, whatever it draws.
\<close>

lemma mutation_keeps_distribution:
  assumes "Hawk \<in> fst ` set population" and "\<forall>p\<in>set population. 0 < snd p"
    and "mutation population rs k = Inr (population', k')"
  shows "(\<forall>p\<in>set population'. 0 < snd p)
     \<and> sum_list (map snd population') = sum_list (map snd population)
     \<and> map fst population' = map fst population"
proof (cases "fst (random_random rs k) < MUTATION_RATE")
  case False
  with assms(3) have "population' = population"
    by (auto simp add: mutation_def split: prod.splits)
  then show ?thesis using assms(2) by simp
next
  case True
  let ?i = "rs (Suc k) mod length population"
  from assms(1) have ne: "population \<noteq> []" by auto
  then have i: "?i < length population" by simp
  obtain s freq where p: "population ! ?i = (s, freq)" by (cases "population ! ?i")
  have f: "0 < freq" using assms(2) i p by (metis nth_mem snd_conv)
  show ?thesis
  proof (cases "s = Hawk")
    case True
    with assms(3) \<open>fst (random_random rs k) < MUTATION_RATE\<close> p ne
    have "population' = population"
      by (auto simp add: mutation_def random_randrange_def randbelow_def random_random_def
          split: prod.splits)
    then show ?thesis using assms(2) by simp
  next
    case False
    let ?h = "hawk_index population"
    let ?a = "mutation_amount freq"
    note t = mutation_transfer [OF \<open>fst (random_random rs k) < MUTATION_RATE\<close> assms(1) refl p False f refl]
    from t assms(3) have eq: "population' = population[?i := (s, freq - ?a),
        ?h := (Hawk, snd (population ! ?h) + ?a)]"
      by simp
    have hp: "0 < snd (population ! ?h)"
      using assms(2) t by (metis nth_mem)
    have pos: "\<forall>p\<in>set population'. 0 < snd p"
    proof
      fix q assume "q \<in> set population'"
      then consider "q = (Hawk, snd (population ! ?h) + ?a)" | "q = (s, freq - ?a)"
        | "q \<in> set population"
        unfolding eq
        using set_update_subset_insert [of "population[?i := (s, freq - ?a)]" ?h]
          set_update_subset_insert [of population ?i]
        by blast
      then show "0 < snd q"
      proof cases
        case 1
        then show ?thesis using hp t by simp
      next
        case 2
        then show ?thesis using t by simp
      next
        case 3
        then show ?thesis using assms(2) by simp
      qed
    qed
    have fs: "map fst population' = map fst population"
      unfolding eq using t p i
      by (simp add: map_update list_update_same_conv)
         (metis fst_conv list_update_id list_update_overwrite map_update nth_map)
    show ?thesis using pos fs t eq by simp
  qed
qed

lemma mutation_returns:
  "population \<noteq> [] \<Longrightarrow> \<exists>population' k'. mutation population rs k = Inr (population', k')"
  by (simp add: mutation_def random_randrange_def split: prod.splits)

subsection \<open>A whole generation\<close>

text \<open>
  With an even \<open>population_size\<close> and a distribution of positive total with one frequency
  per class, a generation returns. With Hawk among the strategies, whatever it returns is
  a distribution over \<^verbatim>\<open>strategies\<close> with positive frequencies summing to 1.
\<close>

lemma generation_returns:
  assumes "even n" and "length population = length strategies" and "population \<noteq> []"
    and "0 < last (cum_weights fl population)"
  shows "\<exists>population' k'. generation fl strategies population n rs k = Inr (population', k')"
proof -
  obtain sampled k1 where s: "sampling fl strategies population n rs k = Inr (sampled, k1)"
    by (simp add: sampling_result [OF assms(2,3,4)])
  obtain individuals k2 where sh: "random_shuffle sampled rs k1 = (individuals, k2)"
    by (cases "random_shuffle sampled rs k1")
  from assms(1) obtain m where m: "n = 2 * m" by (auto elim: evenE)
  have "length sampled = n" using s by (rule sampling_length)
  then have l: "length individuals = 2 * m"
    using length_random_shuffle [of sampled rs k1] sh m by simp
  have r: "range_step2 n = map (\<lambda>j. 2 * j) [0..<m]"
    using m by (simp add: range_step2_def)
  obtain payoffs k3 where
    c: "contest_phase (range_step2 n) individuals (replicate n 0) rs k2 = Inr (payoffs, k3)"
    unfolding r using contest_phase_pairs_complete [OF l, of "replicate n 0" 0 rs k2] m by auto
  have "strategies \<noteq> []" using assms(2,3) by auto
  then have "normalize strategies (aggregate strategies individuals payoffs) \<noteq> []"
    by (simp add: normalize_eq)
  from mutation_returns [OF this, of rs k3] show ?thesis
    using s sh c by (simp add: generation_def)
qed

lemma generation_keeps_distribution:
  assumes "Hawk \<in> set strategies"
    and "generation fl strategies population n rs k = Inr (population', k')"
  shows "(\<forall>p\<in>set population'. 0 < snd p) \<and> sum_list (map snd population') = 1
     \<and> map fst population' = strategies"
proof -
  from assms(2) obtain agg k3 where
    m: "mutation (normalize strategies agg) rs k3 = Inr (population', k')"
    by (auto simp add: generation_def split: sum.splits prod.splits)
  from assms(1) have ne: "strategies \<noteq> []" by auto
  note d = normalize_distribution [OF ne, of agg]
  have "fst ` set (normalize strategies agg) = set strategies"
    using d by (metis set_map)
  then have h: "Hawk \<in> fst ` set (normalize strategies agg)" using assms(1) by simp
  from mutation_keeps_distribution [OF h _ m] d show ?thesis by simp
qed

lemma two_cooperators_draw:
  "play_contest class_G (RetaliatorG ''C'' 0) class_G (MouseG False) rs k = Inr ((0, 0), k)"
  by (simp add: play_contest_def contest_start_def round_body_def resolve_def dangerous_A_def
      dangerous_B_def class_G_def MAX_MOVES_def upt_conv_Cons)

text \<open>
  C5 asks every generation to turn non-negative frequencies that sum to 1 into
  non-negative frequencies that sum to 1. It fails when Hawk is not among the strategies:
  in one generation of \<^verbatim>\<open>evolutionary_simulation([Mouse, Retaliator], [0.5, 0.5],
  generations=1, population_size=2)\<close> in which the mutation step triggers and picks Mouse,
  the sampling phase makes one Mouse and one Retaliator (the double product
  \<^verbatim>\<open>0.5 * 2\<close> is exactly 1), both cooperate for ten rounds, both classes get fitness 100
  and frequency \<open>1/2\<close>; the mutation step then takes 0.05 from Mouse and, finding no
  Hawk in the distribution, gives it to no class. The output frequencies sum to
  \<open>19/20\<close>.
\<close>

theorem mutation_without_hawk_loses_frequency:
  "sum_list [1 / 2, 1 / 2 :: real] = 1
   \<and> evolutionary_simulation unrounded [Mouse, Retaliator] [1 / 2, 1 / 2] 1 2
       (raw_stream [0, 0, 0]) 0
     = Inr ([(Mouse, 9 / 20), (Retaliator, 1 / 2)], 3)
   \<and> sum_list (map snd [(Mouse, 9 / 20 :: real), (Retaliator, 1 / 2)]) = 19 / 20"
proof -
  let ?rs = "raw_stream [0, 0, 0]"
  let ?strategies = "[Mouse, Retaliator]"
  let ?population = "[(Mouse, 1 / 2 :: real), (Retaliator, 1 / 2)]"
  let ?individuals = "[RetaliatorG ''C'' 0, MouseG False]"
  have s: "sampling unrounded ?strategies ?population 2 ?rs 0
      = Inr ([MouseG False, RetaliatorG ''C'' 0], 0)"
    by (simp add: sampling_def py_int_def fill.simps trim.simps unrounded_def)
  have u: "[1..<2] = [1::nat]" by (simp add: upt_conv_Cons)
  have sh: "random_shuffle [MouseG False, RetaliatorG ''C'' 0] ?rs 0 = (?individuals, 1)"
    by (simp add: random_shuffle_def u randbelow_def raw_stream_def)
  have r: "range_step2 2 = [0]" by (simp add: range_step2_def)
  have z: "replicate 2 (0::int) = [0, 0]" by (simp add: numeral_2_eq_2)
  have c: "contest_phase (range_step2 2) ?individuals (replicate 2 0) ?rs 1 = Inr ([0, 0], 1)"
    unfolding r z by (simp add: two_cooperators_draw)
  have a: "normalize ?strategies (aggregate ?strategies ?individuals [0, 0]) = ?population"
    by (simp add: normalize_def aggregate_def isinstance_def fitness_def)
  have m: "mutation ?population ?rs 1 = Inr ([(Mouse, 9 / 20), (Retaliator, 1 / 2)], 3)"
    by (simp add: mutation_def random_defs MUTATION_RATE_def mutation_amount_def)
  have g: "generation unrounded ?strategies ?population 2 ?rs 0
      = Inr ([(Mouse, 9 / 20), (Retaliator, 1 / 2)], 3)"
    by (simp only: generation_def s sh c a m sum.case prod.case)
  have "evolutionary_simulation unrounded ?strategies [1 / 2, 1 / 2] 1 2 ?rs 0
      = Inr ([(Mouse, 9 / 20), (Retaliator, 1 / 2)], 3)"
    by (simp add: evolutionary_simulation_def g)
  then show ?thesis by simp
qed

end
